theory Spec2Isabelle
  imports Complex_Main "HOL-Library.Multiset" "HOL-Library.Word"
begin

section \<open>FROC evaluation (compute\_FROC.py): the data\<close>

text \<open>
  The exceptions the modelled code can raise: numpy's ValueError (maximum of an empty
  array, a negative number of samples, operands that do not broadcast) and IndexError
  (a boolean index whose shape is not the indexed array's).
\<close>

datatype error = ValueError | IndexError

text \<open>
  A two-dimensional numpy array: its shape and its entries, read at (row, column).
  Only the entries inside the shape are ever read.
\<close>

record 'a ndarray =
  nrows :: nat
  ncols :: nat
  px :: "nat \<times> nat \<Rightarrow> 'a"

type_synonym pixel = "nat \<times> nat"

text \<open>
  The result of a float64 division of numpy: a finite quotient, or what numpy stores
  (with a warning, without raising) when the divisor is zero.
\<close>

datatype float64 = Finite real | PosInf | NaN

definition shape :: "'a ndarray \<Rightarrow> nat \<times> nat" where
  "shape a = (nrows a, ncols a)"

text \<open>All positions of an array, in raster order.\<close>

definition indices :: "'a ndarray \<Rightarrow> pixel list" where
  "indices a = List.product [0..<nrows a] [0..<ncols a]"

text \<open>\<^verbatim>\<open>np.ones(shape, dtype='uint8') * v\<close>\<close>

definition full :: "nat \<times> nat \<Rightarrow> 'a \<Rightarrow> 'a ndarray" where
  "full sh v = \<lparr>nrows = fst sh, ncols = snd sh, px = (\<lambda>p. v)\<rparr>"

text \<open>The boolean arrays \<^verbatim>\<open>a >= t\<close> and \<^verbatim>\<open>a == v\<close>.\<close>

definition ge_scalar :: "real ndarray \<Rightarrow> real \<Rightarrow> bool ndarray" where
  "ge_scalar a t = \<lparr>nrows = nrows a, ncols = ncols a, px = (\<lambda>p. px a p \<ge> t)\<rparr>"

definition eq_scalar :: "'a ndarray \<Rightarrow> 'a \<Rightarrow> bool ndarray" where
  "eq_scalar a v = \<lparr>nrows = nrows a, ncols = ncols a, px = (\<lambda>p. px a p = v)\<rparr>"

text \<open>
  The assignment \<^verbatim>\<open>a[mask] = v\<close> with a boolean mask: numpy raises IndexError when
  the mask has another shape than the array.
\<close>

definition set_where :: "'a ndarray \<Rightarrow> bool ndarray \<Rightarrow> 'a \<Rightarrow> error + 'a ndarray" where
  "set_where a cond v =
     (if shape cond = shape a
      then Inr (a\<lparr>px := (\<lambda>p. if px cond p then v else px a p)\<rparr>)
      else Inl IndexError)"

text \<open>\<^verbatim>\<open>a.max()\<close>: numpy raises ValueError on an array without entries.\<close>

definition amax :: "int ndarray \<Rightarrow> error + int" where
  "amax a = (case map (px a) (indices a) of
               [] \<Rightarrow> Inl ValueError
             | v # vs \<Rightarrow> Inr (fold max vs v))"

text \<open>
  A read \<^verbatim>\<open>xs[i]\<close> of a one-dimensional array: a negative index counts from the
  end, and an index outside the array raises IndexError.
\<close>

definition np_get :: "'a list \<Rightarrow> int \<Rightarrow> error + 'a" where
  "np_get xs i =
     (let n = int (length xs); j = (if i < 0 then i + n else i)
      in if 0 \<le> j \<and> j < n then Inr (xs ! nat j) else Inl IndexError)"

text \<open>
  The in-place addition \<^verbatim>\<open>acc += v\<close> of one-dimensional arrays: \<open>v\<close> is broadcast to
  the shape of \<open>acc\<close> (same length, or length one), and numpy raises ValueError
  otherwise.
\<close>

definition iadd :: "nat list \<Rightarrow> nat list \<Rightarrow> error + nat list" where
  "iadd acc v =
     (if length v = length acc then Inr (map2 (+) acc v)
      else if length v = 1 then Inr (map (\<lambda>a. a + hd v) acc)
      else Inl ValueError)"

text \<open>
  The division \<^verbatim>\<open>x / d\<close> of a float64 entry holding a count by an integer: numpy
  does not raise on a zero divisor, it stores nan for 0/0 and inf for x/0.
\<close>

definition true_divide :: "nat \<Rightarrow> nat \<Rightarrow> float64" where
  "true_divide x d =
     (if d = 0 then (if x = 0 then NaN else PosInf) else Finite (real x / real d))"

text \<open>
  \<^verbatim>\<open>np.linspace(start, stop, num)\<close> for a non-negative \<open>num\<close>: entry \<open>i\<close> is
  \<open>start + i * step\<close> with \<open>step = (stop - start) / (num - 1)\<close>, the last entry is set to
  \<open>stop\<close>; a single sample is \<open>start\<close>. Floating-point numbers are modelled as reals.
\<close>

definition linspace :: "real \<Rightarrow> real \<Rightarrow> nat \<Rightarrow> real list" where
  "linspace start stop num =
     (let delta = stop - start; d = int num - 1
      in if 0 < d
         then (map (\<lambda>i. start + real i * (delta / real_of_int d)) [0..<num])[num - 1 := stop]
         else map (\<lambda>i. start + real i * delta) [0..<num])"

section \<open>Connected regions (scipy.ndimage.label)\<close>

text \<open>
  \<^verbatim>\<open>structure_mask = [[1,1,1], [1,1,1], [1,1,1]]\<close>: the neighbours of a pixel are the
  positions at row and column offsets -1, 0, 1 whose entry of the structure is set.
\<close>

definition structure_mask :: "nat list list" where
  "structure_mask = [[1, 1, 1], [1, 1, 1], [1, 1, 1]]"

definition adjacent :: "nat list list \<Rightarrow> pixel \<Rightarrow> pixel \<Rightarrow> bool" where
  "adjacent structure p q =
     (let dr = int (fst q) - int (fst p); dc = int (snd q) - int (snd p)
      in \<bar>dr\<bar> \<le> 1 \<and> \<bar>dc\<bar> \<le> 1 \<and> structure ! nat (dr + 1) ! nat (dc + 1) \<noteq> 0)"

definition touches :: "nat list list \<Rightarrow> pixel \<Rightarrow> pixel list \<Rightarrow> bool" where
  "touches structure p R = (\<exists>q \<in> set R. adjacent structure p q)"

text \<open>
  One more pixel joins the regions found so far: the regions it touches merge with it
  into one region, the others stay.
\<close>

definition add_pixel :: "nat list list \<Rightarrow> pixel \<Rightarrow> pixel list list \<Rightarrow> pixel list list" where
  "add_pixel structure p Rs =
     (p # concat (filter (touches structure p) Rs)) # filter (\<lambda>R. \<not> touches structure p R) Rs"

text \<open>
  \<^verbatim>\<open>ndimage.label(input, structure)\<close>: the connected regions of the set entries of a
  boolean array, each region the list of its pixels. The library returns an array that
  numbers the regions 1, 2, ... and their count; region \<open>k\<close> is entry \<open>k - 1\<close> of the list
  here and the count is the length of the list. The order in which the library numbers
  the regions is not modelled: compute\_FROC only counts regions.
\<close>

definition ndimage_label :: "bool ndarray \<Rightarrow> nat list list \<Rightarrow> pixel list list" where
  "ndimage_label input structure =
     foldr (add_pixel structure) (filter (px input) (indices input)) []"

section \<open>post and compute\_FROC\<close>

definition ACCEPTANCE_RATIO :: real where
  "ACCEPTANCE_RATIO = 0.1"

definition NUM_THRESHOLDS :: int where
  "NUM_THRESHOLDS = 50"

text \<open>
  \<^verbatim>\<open>post(logits, label, threshold)\<close>: 127 everywhere, then 255 where the logit reaches
  the threshold, then 0 where the label is 0. The segmentation has dtype uint8.
\<close>

definition post :: "real ndarray \<Rightarrow> int ndarray \<Rightarrow> real \<Rightarrow> error + 8 word ndarray" where
  "post logits label threshold =
     (case set_where (full (shape logits) 127) (ge_scalar logits threshold) 255 of
        Inl e \<Rightarrow> Inl e
      | Inr thresholded \<Rightarrow> set_where thresholded (eq_scalar label 0) 0)"

definition prob2logit :: "real \<Rightarrow> real" where
  "prob2logit p = ln p - ln (1 - p)"

text \<open>
  The loop over \<^verbatim>\<open>lesion_id\<close>: each region whose overlap with the pixels valued 255 in
  the segmentation reaches ACCEPTANCE\_RATIO of its area adds one to the entry of TPs.
\<close>

fun count_TPs :: "pixel list list \<Rightarrow> 8 word ndarray \<Rightarrow> nat \<Rightarrow> nat" where
  "count_TPs [] segmentation tp = tp"
| "count_TPs (lesion # lesions) segmentation tp =
     (let lesion_area = length lesion;
          overlap_area = length (filter (\<lambda>p. px segmentation p = 255) lesion)
      in count_TPs lesions segmentation
           (if real overlap_area / real lesion_area \<ge> ACCEPTANCE_RATIO then tp + 1 else tp))"

text \<open>
  The state of the loop over the thresholds: FPs, TPs and num\_lesions. The arrays of
  counts are float64 arrays that only ever hold whole numbers; they are modelled as
  lists of naturals.
\<close>

type_synonym froc = "nat list \<times> nat list \<times> nat"

text \<open>
  The body of the loop at index \<open>threshold\<close>. The reads and writes at
  \<^verbatim>\<open>[threshold]\<close> are inside the arrays (all have num\_thresholds entries); the read
  at \<^verbatim>\<open>[threshold - 1]\<close> is Python's, index -1 being the last entry.
\<close>

definition froc_body ::
  "real ndarray \<Rightarrow> int ndarray \<Rightarrow> real list \<Rightarrow> nat \<Rightarrow> froc \<Rightarrow> error + froc" where
  "froc_body logits label thresholds threshold s =
     (case s of (FPs, TPs, num_lesions) \<Rightarrow>
      case post logits label (thresholds ! threshold) of
        Inl e \<Rightarrow> Inl e
      | Inr segmentation \<Rightarrow>
         (case amax label of
            Inl e \<Rightarrow> Inl e
          | Inr m \<Rightarrow>
             if m = 255 then
               (let lesions = ndimage_label (eq_scalar label 255) structure_mask
                in Inr (FPs,
                        TPs[threshold := count_TPs lesions segmentation (TPs ! threshold)],
                        length lesions))
             else
               (let num_FPs = length (ndimage_label (eq_scalar segmentation 255) structure_mask);
                    FPs1 = FPs[threshold := FPs ! threshold + num_FPs]
                in case np_get FPs1 (int threshold - 1) of
                     Inl e \<Rightarrow> Inl e
                   | Inr prev \<Rightarrow>
                       Inr (if FPs1 ! threshold < prev then FPs1[threshold := prev] else FPs1,
                            TPs, num_lesions))))"

fun froc_loop ::
  "real ndarray \<Rightarrow> int ndarray \<Rightarrow> real list \<Rightarrow> nat list \<Rightarrow> froc \<Rightarrow> error + froc" where
  "froc_loop logits label thresholds [] s = Inr s"
| "froc_loop logits label thresholds (threshold # rest) s =
     (case froc_body logits label thresholds threshold s of
        Inl e \<Rightarrow> Inl e
      | Inr s' \<Rightarrow> froc_loop logits label thresholds rest s')"

text \<open>
  \<^verbatim>\<open>compute_FROC(logits, label, num_thresholds, acceptance_ratio)\<close>. A negative
  num\_thresholds makes np.linspace raise ValueError. The parameter acceptance\_ratio
  is not read by the body, as in the source.
\<close>

definition compute_FROC :: "real ndarray \<Rightarrow> int ndarray \<Rightarrow> int \<Rightarrow> real \<Rightarrow> error + froc" where
  "compute_FROC logits label num_thresholds acceptance_ratio =
     (if num_thresholds < 0 then Inl ValueError
      else
        (let n = nat num_thresholds;
             probs = linspace 0.9999 0.0001 n;
             thresholds = map prob2logit probs
         in froc_loop logits label thresholds [0..<n] (replicate n 0, replicate n 0, 0)))"

section \<open>main: accumulation over the dataset and the final metrics\<close>

text \<open>
  The running totals of main: FPs, TPs, num\_normal\_images and num\_lesions. A row of
  the dataset is the pair (logits, label) that the network and the image reader deliver
  for it.
\<close>

type_synonym totals = "nat list \<times> nat list \<times> nat \<times> nat"

fun accumulate ::
  "(real ndarray \<times> int ndarray) list \<Rightarrow> int \<Rightarrow> real \<Rightarrow> totals \<Rightarrow> error + totals" where
  "accumulate [] num_thresholds acceptance_ratio s = Inr s"
| "accumulate ((logits, label) # rows) num_thresholds acceptance_ratio s =
     (case s of (FPs, TPs, num_normal_images, num_lesions) \<Rightarrow>
      case compute_FROC logits label num_thresholds acceptance_ratio of
        Inl e \<Rightarrow> Inl e
      | Inr (im_FPs, im_TPs, im_lesions) \<Rightarrow>
         (case iadd FPs im_FPs of
            Inl e \<Rightarrow> Inl e
          | Inr FPs' \<Rightarrow>
             (case iadd TPs im_TPs of
                Inl e \<Rightarrow> Inl e
              | Inr TPs' \<Rightarrow>
                  accumulate rows num_thresholds acceptance_ratio
                    (FPs', TPs',
                     if im_lesions = 0 then num_normal_images + 1 else num_normal_images,
                     num_lesions + im_lesions))))"

text \<open>
  main, from the loop over the rows to the two vectors it returns: sensitivity and
  FP\_per\_image. Loading the network, reading the files, the interpolated sensitivity
  at one false positive (np.interp, which does not raise on these vectors) and the
  report are outside the model.
\<close>

definition main ::
  "(real ndarray \<times> int ndarray) list \<Rightarrow> int \<Rightarrow> real \<Rightarrow> error + (float64 list \<times> float64 list)" where
  "main rows num_thresholds acceptance_ratio =
     (case accumulate rows num_thresholds acceptance_ratio
             (replicate (nat NUM_THRESHOLDS) 0, replicate (nat NUM_THRESHOLDS) 0, 0, 0) of
        Inl e \<Rightarrow> Inl e
      | Inr (FPs, TPs, num_normal_images, num_lesions) \<Rightarrow>
          Inr (map (\<lambda>t. true_divide t num_lesions) TPs,
               map (\<lambda>f. true_divide f num_normal_images) FPs))"

section \<open>Auxiliary notions for the proofs about main\<close>

text \<open>
  The value of \<^verbatim>\<open>acc += v\<close> when it does not raise, as a total function.
\<close>

definition badd :: "nat list \<Rightarrow> nat list \<Rightarrow> nat list" where
  "badd acc v = (if length v = length acc then map2 (+) acc v else map (\<lambda>a. a + hd v) acc)"

text \<open>
  What one row of the dataset adds to the totals when compute\_FROC and the two in-place
  additions succeed on it, and the condition under which they do for totals of length
  \<open>L\<close>.
\<close>

definition row_update :: "int \<Rightarrow> real \<Rightarrow> real ndarray \<times> int ndarray \<Rightarrow> totals \<Rightarrow> totals" where
  "row_update n r row s =
     (case s of (FPs, TPs, num_normal_images, num_lesions) \<Rightarrow>
      case projr (compute_FROC (fst row) (snd row) n r) of (im_FPs, im_TPs, im_lesions) \<Rightarrow>
        (badd FPs im_FPs, badd TPs im_TPs,
         if im_lesions = 0 then num_normal_images + 1 else num_normal_images,
         num_lesions + im_lesions))"

definition row_ok :: "nat \<Rightarrow> int \<Rightarrow> real \<Rightarrow> real ndarray \<times> int ndarray \<Rightarrow> bool" where
  "row_ok L n r row =
     (\<exists>res. compute_FROC (fst row) (snd row) n r = Inr res \<and> (nat n = L \<or> nat n = 1))"

text \<open>
  Two pixels of a set are linked when they are neighbours under the 3x3 structure; the
  regions of a list of pixels are its connected components when they partition the
  pixels, every region is connected by links inside the pixels, and no pixel outside a
  region is a neighbour of one inside.
\<close>

definition linked :: "pixel set \<Rightarrow> (pixel \<times> pixel) set" where
  "linked S = {(p, q). p \<in> S \<and> q \<in> S \<and> adjacent structure_mask p q}"

definition components :: "pixel list \<Rightarrow> pixel list list \<Rightarrow> bool" where
  "components ps Rs \<longleftrightarrow>
     set (concat Rs) = set ps \<and> distinct (concat Rs) \<and> [] \<notin> set Rs \<and>
     (\<forall>R \<in> set Rs. \<forall>p \<in> set R. \<forall>q \<in> set R. (p, q) \<in> (linked (set ps))\<^sup>*) \<and>
     (\<forall>R \<in> set Rs. \<forall>p \<in> set R. \<forall>q \<in> set ps. adjacent structure_mask p q \<longrightarrow> q \<in> set R)"

section \<open>Example images\<close>

text \<open>An image of one row with the given entries (\<open>d\<close> outside the row).\<close>

definition row_image :: "'a list \<Rightarrow> 'a \<Rightarrow> 'a ndarray" where
  "row_image vs d = \<lparr>nrows = 1, ncols = length vs,
                      px = (\<lambda>p. if snd p < length vs then vs ! snd p else d)\<rparr>"

text \<open>An image of one row of \<open>n\<close> entries, entry \<open>c\<close> being \<open>f c\<close>.\<close>

definition row_fun :: "nat \<Rightarrow> (nat \<Rightarrow> 'a) \<Rightarrow> 'a ndarray" where
  "row_fun n f = \<lparr>nrows = 1, ncols = n, px = (\<lambda>p. f (snd p))\<rparr>"

text \<open>An image of a single pixel.\<close>

definition pixel_image :: "'a \<Rightarrow> 'a ndarray" where
  "pixel_image v = \<lparr>nrows = 1, ncols = 1, px = (\<lambda>p. v)\<rparr>"

section \<open>Basic facts\<close>

lemma set_indices: "set (indices a) = {(r, c). r < nrows a \<and> c < ncols a}"
  by (auto simp: indices_def)

lemma distinct_indices: "distinct (indices a)"
  by (simp add: indices_def distinct_product)

lemma post_Inr:
  "shape label = shape logits \<Longrightarrow>
   post logits label t =
     Inr \<lparr>nrows = nrows logits, ncols = ncols logits,
          px = (\<lambda>p. if px label p = 0 then 0 else if t \<le> px logits p then 255 else 127)\<rparr>"
  by (auto simp: post_def set_where_def full_def ge_scalar_def eq_scalar_def shape_def)

lemma post_Inl: "shape label \<noteq> shape logits \<Longrightarrow> post logits label t = Inl IndexError"
  by (auto simp: post_def set_where_def full_def ge_scalar_def eq_scalar_def shape_def)

lemma fold_max_Max: "fold max vs (v::int) = Max (set (v # vs))"
  using Max.set_eq_fold [of v vs] by simp

lemma amax_Inr_iff:
  "amax a = Inr m \<longleftrightarrow> indices a \<noteq> [] \<and> m = Max (px a ` set (indices a))"
  by (auto simp: amax_def fold_max_Max split: list.splits simp flip: set_map)

lemma amax_Inl_iff: "amax a = Inl e \<longleftrightarrow> indices a = [] \<and> e = ValueError"
  by (auto simp: amax_def split: list.splits)

lemma amax_255_iff:
  "amax a = Inr 255 \<longleftrightarrow>
     (\<exists>p \<in> set (indices a). px a p = 255) \<and> (\<forall>p \<in> set (indices a). px a p \<le> 255)"
proof -
  have fin: "finite (px a ` set (indices a))" by simp
  show ?thesis
  proof (cases "indices a = []")
    case True
    then show ?thesis by (simp add: amax_Inr_iff)
  next
    case False
    then have ne: "px a ` set (indices a) \<noteq> {}" by simp
    have "Max (px a ` set (indices a)) = 255 \<longleftrightarrow>
          255 \<in> px a ` set (indices a) \<and> (\<forall>v \<in> px a ` set (indices a). v \<le> 255)"
      using Max_eq_iff [OF fin ne, of 255] by auto
    with False show ?thesis by (auto simp: amax_Inr_iff)
  qed
qed

lemma count_TPs_filter:
  "count_TPs lesions seg tp =
     tp + length (filter (\<lambda>R. ACCEPTANCE_RATIO \<le>
            real (length (filter (\<lambda>p. px seg p = 255) R)) / real (length R)) lesions)"
  by (induction lesions arbitrary: tp) (simp_all add: Let_def)

lemma froc_loop_snoc:
  "froc_loop logits label ths (ks @ [k]) s =
     (case froc_loop logits label ths ks s of
        Inl e \<Rightarrow> Inl e
      | Inr s' \<Rightarrow> froc_body logits label ths k s')"
  by (induction ks arbitrary: s) (auto split: sum.splits)

lemma froc_body_shape:
  "shape label \<noteq> shape logits \<Longrightarrow> froc_body logits label ths k s = Inl IndexError"
  by (simp add: froc_body_def post_Inl split: prod.splits)

lemma froc_body_empty:
  "shape label = shape logits \<Longrightarrow> indices label = [] \<Longrightarrow>
   froc_body logits label ths k s = Inl ValueError"
  by (simp add: froc_body_def post_Inr amax_def split: prod.splits)

lemma froc_body_lesion:
  assumes "shape label = shape logits" and "amax label = Inr 255"
  shows "froc_body logits label ths k (F, T, l) =
     Inr (F,
          T[k := count_TPs (ndimage_label (eq_scalar label 255) structure_mask)
                   (projr (post logits label (ths ! k))) (T ! k)],
          length (ndimage_label (eq_scalar label 255) structure_mask))"
  using assms by (simp add: froc_body_def post_Inr Let_def)

lemma froc_body_normal:
  assumes "shape label = shape logits" and "amax label = Inr m" and "m \<noteq> 255"
  shows "froc_body logits label ths k (F, T, l) =
     (let F1 = F[k := F ! k +
                 length (ndimage_label (eq_scalar (projr (post logits label (ths ! k))) 255)
                           structure_mask)]
      in case np_get F1 (int k - 1) of
           Inl e \<Rightarrow> Inl e
         | Inr prev \<Rightarrow> Inr (if F1 ! k < prev then F1[k := prev] else F1, T, l))"
  using assms by (simp add: froc_body_def post_Inr Let_def)

lemma froc_loop_lesion:
  assumes "shape label = shape logits" and "amax label = Inr 255" and "k \<le> n"
  shows "froc_loop logits label ths [0..<k] (replicate n 0, replicate n 0, 0) =
     Inr (replicate n 0,
          map (\<lambda>i. count_TPs (ndimage_label (eq_scalar label 255) structure_mask)
                      (projr (post logits label (ths ! i))) 0) [0..<k] @ replicate (n - k) 0,
          if k = 0 then 0 else length (ndimage_label (eq_scalar label 255) structure_mask))"
  using assms(3)
proof (induction k)
  case 0
  then show ?case by simp
next
  case (Suc k)
  then have k: "k < n" by simp
  have upd: "(map f [0..<k] @ replicate (n - k) (0::nat))[k := v] =
             map f [0..<k] @ v # replicate (n - Suc k) 0" for f v
  proof -
    from k obtain d where d: "n - k = Suc d" by (cases "n - k") auto
    then have "n - Suc k = d" by simp
    with d show ?thesis by (simp add: list_update_append)
  qed
  show ?case
    using Suc k by (simp add: froc_loop_snoc froc_body_lesion [OF assms(1,2)] upd nth_append)
qed

lemma np_get_prev:
  assumes "k < length xs"
  shows "np_get xs (int k - 1) = Inr (xs ! (if k = 0 then length xs - 1 else k - 1))"
proof (cases "k = 0")
  case True
  with assms show ?thesis by (simp add: np_get_def Let_def nat_diff_distrib')
next
  case False
  with assms have "nat (int k - 1) = k - 1" and "\<not> int k - 1 < 0" and "int k - 1 < int (length xs)"
    by auto
  with False show ?thesis by (simp add: np_get_def Let_def)
qed

lemma froc_loop_normal:
  assumes "shape label = shape logits" and "amax label = Inr m" and "m \<noteq> 255" and "k \<le> n"
  shows "\<exists>F. froc_loop logits label ths [0..<k] (replicate n 0, replicate n 0, 0) =
             Inr (F, replicate n 0, 0) \<and> length F = n \<and>
           (\<forall>i<k. F ! i =
              (if i = 0
               then length (ndimage_label (eq_scalar (projr (post logits label (ths ! i))) 255)
                      structure_mask)
               else max (length (ndimage_label
                           (eq_scalar (projr (post logits label (ths ! i))) 255) structure_mask))
                        (F ! (i - 1)))) \<and>
           (\<forall>i. k \<le> i \<and> i < n \<longrightarrow> F ! i = 0)"
  using assms(4)
proof (induction k)
  case 0
  then show ?case by simp
next
  case (Suc k)
  define raw where "raw i = length (ndimage_label
      (eq_scalar (projr (post logits label (ths ! i))) 255) structure_mask)" for i
  from Suc have k: "k < n" by simp
  then have "k \<le> n" by simp
  with Suc.IH obtain F where
    loop: "froc_loop logits label ths [0..<k] (replicate n 0, replicate n 0, 0) =
             Inr (F, replicate n 0, 0)"
    and len: "length F = n"
    and filled: "\<forall>i<k. F ! i = (if i = 0 then raw i else max (raw i) (F ! (i - 1)))"
    and rest: "\<forall>i. k \<le> i \<and> i < n \<longrightarrow> F ! i = 0"
    unfolding raw_def by blast
  define F1 where "F1 = F[k := F ! k + raw k]"
  define prev where "prev = F1 ! (if k = 0 then length F1 - 1 else k - 1)"
  define F' where "F' = (if F1 ! k < prev then F1[k := prev] else F1)"
  have len1: "length F1 = n" by (simp add: F1_def len)
  have F1k: "F1 ! k = raw k" using k rest [rule_format, of k] by (simp add: F1_def len)
  have F1o: "F1 ! i = F ! i" if "i \<noteq> k" for i using that by (simp add: F1_def)
  have get: "np_get F1 (int k - 1) = Inr prev"
    using np_get_prev [of k F1] k by (simp add: len1 prev_def)
  have body: "froc_body logits label ths k (F, replicate n 0, 0) = Inr (F', replicate n 0, 0)"
    unfolding froc_body_normal [OF assms(1,2,3)] raw_def [symmetric]
    by (simp add: Let_def F1_def [symmetric] get F'_def)
  have step: "froc_loop logits label ths [0..<Suc k] (replicate n 0, replicate n 0, 0) =
                Inr (F', replicate n 0, 0)"
    by (simp add: froc_loop_snoc loop body)
  have len': "length F' = n" by (simp add: F'_def len1)
  have prev0: "k = 0 \<Longrightarrow> \<not> F1 ! k < prev"
  proof -
    assume k0: "k = 0"
    show "\<not> F1 ! k < prev"
    proof (cases "n = 1")
      case True
      with k0 show ?thesis by (simp add: prev_def len1)
    next
      case False
      with k k0 have "n - 1 \<noteq> k" and "k \<le> n - 1" and "n - 1 < n" by auto
      then have "F1 ! (n - 1) = 0" using rest [rule_format, of "n - 1"] F1o [of "n - 1"] by simp
      with k0 show ?thesis by (simp add: prev_def len1)
    qed
  qed
  have F'k: "F' ! k = (if k = 0 then raw k else max (raw k) (F' ! (k - 1)))"
  proof (cases "k = 0")
    case True
    with prev0 F1k show ?thesis by (simp add: F'_def)
  next
    case False
    then have p: "prev = F ! (k - 1)" by (simp add: prev_def F1o)
    from False have o: "F' ! (k - 1) = F ! (k - 1)" by (simp add: F'_def F1o)
    have "F' ! k = max (raw k) (F ! (k - 1))"
      using k by (simp add: F'_def p F1k len1 max_def)
    with False o show ?thesis by simp
  qed
  have F'o: "F' ! i = F ! i" if "i \<noteq> k" for i using that by (simp add: F'_def F1o)
  have "\<forall>i<Suc k. F' ! i = (if i = 0 then raw i else max (raw i) (F' ! (i - 1)))"
  proof (intro allI impI)
    fix i assume "i < Suc k"
    show "F' ! i = (if i = 0 then raw i else max (raw i) (F' ! (i - 1)))"
    proof (cases "i = k")
      case True
      with F'k show ?thesis by simp
    next
      case False
      with \<open>i < Suc k\<close> have ik: "i < k" by simp
      then have "i - 1 \<noteq> k" by simp
      with ik filled [rule_format, of i] F'o [of i] F'o [of "i - 1"] show ?thesis by simp
    qed
  qed
  moreover have "\<forall>i. Suc k \<le> i \<and> i < n \<longrightarrow> F' ! i = 0"
  proof (intro allI impI)
    fix i assume "Suc k \<le> i \<and> i < n"
    then show "F' ! i = 0" using rest [rule_format, of i] F'o [of i] by simp
  qed
  ultimately show ?case
    using step len' unfolding raw_def by blast
qed

lemma compute_FROC_Inr_wf:
  assumes "compute_FROC logits label n r = Inr res"
  shows "0 \<le> n \<and> (n = 0 \<or> (shape label = shape logits \<and> indices label \<noteq> []))"
proof -
  from assms have n: "0 \<le> n" by (auto simp: compute_FROC_def split: if_splits)
  show ?thesis
  proof (cases "n = 0")
    case True
    then show ?thesis by simp
  next
    case False
    with n have "[0..<nat n] = 0 # [1..<nat n]" by (simp add: upt_rec)
    with assms n have body: "\<exists>s'. froc_body logits label
        (map prob2logit (linspace 0.9999 0.0001 (nat n))) 0
        (replicate (nat n) 0, replicate (nat n) 0, 0) = Inr s'"
      by (auto simp: compute_FROC_def Let_def split: sum.splits)
    then have "shape label = shape logits"
      using froc_body_shape [of label logits] by force
    moreover from this body have "indices label \<noteq> []"
      using froc_body_empty [of label logits] by force
    ultimately show ?thesis using n by simp
  qed
qed

lemma compute_FROC_lesion:
  assumes "shape label = shape logits" and "amax label = Inr 255" and "0 \<le> n"
  shows "compute_FROC logits label n r =
     Inr (replicate (nat n) 0,
          map (\<lambda>i. count_TPs (ndimage_label (eq_scalar label 255) structure_mask)
                      (projr (post logits label
                         (map prob2logit (linspace 0.9999 0.0001 (nat n)) ! i))) 0)
              [0..<nat n],
          if n = 0 then 0 else length (ndimage_label (eq_scalar label 255) structure_mask))"
  using assms(3) froc_loop_lesion [OF assms(1,2) order_refl, where k = "nat n"]
  by (simp add: compute_FROC_def Let_def)

lemma compute_FROC_normal:
  assumes "shape label = shape logits" and "amax label = Inr m" and "m \<noteq> 255" and "0 \<le> n"
  shows "\<exists>F. compute_FROC logits label n r = Inr (F, replicate (nat n) 0, 0) \<and>
           length F = nat n \<and>
           (\<forall>i<nat n. F ! i =
              (if i = 0
               then length (ndimage_label (eq_scalar (projr (post logits label
                      (map prob2logit (linspace 0.9999 0.0001 (nat n)) ! i))) 255)
                      structure_mask)
               else max (length (ndimage_label (eq_scalar (projr (post logits label
                           (map prob2logit (linspace 0.9999 0.0001 (nat n)) ! i))) 255)
                           structure_mask))
                        (F ! (i - 1))))"
proof -
  from froc_loop_normal [OF assms(1,2,3) order_refl, where k = "nat n"
      and ths = "map prob2logit (linspace 0.9999 0.0001 (nat n))"]
  obtain F where
    "froc_loop logits label (map prob2logit (linspace 0.9999 0.0001 (nat n))) [0..<nat n]
       (replicate (nat n) 0, replicate (nat n) 0, 0) = Inr (F, replicate (nat n) 0, 0)"
    and "length F = nat n"
    and "\<forall>i<nat n. F ! i =
              (if i = 0
               then length (ndimage_label (eq_scalar (projr (post logits label
                      (map prob2logit (linspace 0.9999 0.0001 (nat n)) ! i))) 255)
                      structure_mask)
               else max (length (ndimage_label (eq_scalar (projr (post logits label
                           (map prob2logit (linspace 0.9999 0.0001 (nat n)) ! i))) 255)
                           structure_mask))
                        (F ! (i - 1)))"
    by blast
  with assms(4) show ?thesis
    by (intro exI [of _ F]) (simp add: compute_FROC_def Let_def)
qed

lemma amax_cases:
  assumes "indices label \<noteq> []"
  obtains m where "amax label = Inr m"
  using assms by (auto simp: amax_Inr_iff)

lemma amax_no_lesion:
  assumes "amax label = Inr m" and "\<forall>p \<in> set (indices label). px label p \<noteq> 255"
  shows "m \<noteq> 255"
  using assms amax_255_iff [of label] by auto

lemma length_linspace: "length (linspace a b n) = n"
  by (simp add: linspace_def Let_def)

lemma linspace_nth:
  assumes "i < n"
  shows "linspace a b n ! i = (if n = 1 then a else a + real i * ((b - a) / real (n - 1)))"
proof (cases "n = 1")
  case True
  with assms show ?thesis by (simp add: linspace_def Let_def)
next
  case False
  with assms have n: "2 \<le> n" by simp
  then have d: "0 < int n - 1" and r: "real_of_int (int n - 1) = real (n - 1)" by auto
  have last: "a + real (n - 1) * ((b - a) / real (n - 1)) = b"
    using n by simp
  show ?thesis
  proof (cases "i = n - 1")
    case True
    with assms False d last show ?thesis
      by (simp add: linspace_def Let_def)
  next
    case ne: False
    with assms False d show ?thesis
      by (simp add: linspace_def Let_def r del: of_int_diff)
  qed
qed

lemma probs_nth:
  assumes "i < n"
  shows "linspace 0.9999 0.0001 n ! i = 0.9999 - real i * (0.9998 / real (n - 1))"
proof (cases "n = 1")
  case True
  with assms show ?thesis by (simp add: linspace_nth)
next
  case False
  with assms show ?thesis by (simp add: linspace_nth)
qed

lemma probs_bounds:
  assumes "i < n"
  shows "0.0001 \<le> linspace 0.9999 0.0001 n ! i" and "linspace 0.9999 0.0001 n ! i \<le> 0.9999"
proof -
  define x where "x = real i * (0.9998 / real (n - 1))"
  have le: "x \<le> 0.9998"
  proof (cases "n = 1")
    case True
    with assms show ?thesis by (simp add: x_def)
  next
    case False
    with assms have "real i \<le> real (n - 1)" and "0 < real (n - 1)" by auto
    then have "real i / real (n - 1) \<le> 1" by simp
    then have "0.9998 * (real i / real (n - 1)) \<le> 0.9998 * 1"
      by (intro mult_left_mono) auto
    then show ?thesis by (simp add: x_def mult.commute)
  qed
  have ge: "0 \<le> x" by (simp add: x_def)
  have eq: "linspace 0.9999 0.0001 n ! i = 0.9999 - x"
    unfolding x_def by (rule probs_nth [OF assms])
  show "0.0001 \<le> linspace 0.9999 0.0001 n ! i"
    unfolding eq using le by simp
  show "linspace 0.9999 0.0001 n ! i \<le> 0.9999"
    unfolding eq using ge by simp
qed

lemma probs_strict:
  assumes "i < j" and "j < n"
  shows "linspace 0.9999 0.0001 n ! j < linspace 0.9999 0.0001 n ! i"
proof -
  define s where "s = 0.9998 / real (n - 1)"
  from assms have n: "0 < real (n - 1)" by simp
  then have "0 < s" by (simp add: s_def)
  with assms(1) have lt: "real i * s < real j * s"
    by (intro mult_strict_right_mono) auto
  from assms have i: "i < n" by simp
  have "linspace 0.9999 0.0001 n ! j = 0.9999 - real j * s"
    unfolding s_def by (rule probs_nth [OF assms(2)])
  moreover have "linspace 0.9999 0.0001 n ! i = 0.9999 - real i * s"
    unfolding s_def by (rule probs_nth [OF i])
  ultimately show ?thesis using lt by simp
qed

lemma prob2logit_strict_mono:
  assumes "0 < p" and "p < q" and "q < 1"
  shows "prob2logit p < prob2logit q"
proof -
  from assms have "ln p < ln q" by simp
  moreover from assms have "ln (1 - q) < ln (1 - p)" by simp
  ultimately show ?thesis by (simp add: prob2logit_def)
qed

lemma thresholds_strict:
  assumes "i < j" and "j < n"
  shows "map prob2logit (linspace 0.9999 0.0001 n) ! j <
         map prob2logit (linspace 0.9999 0.0001 n) ! i"
proof -
  from assms have i: "i < n" by simp
  have "0 < linspace 0.9999 0.0001 n ! j"
    using probs_bounds(1) [OF assms(2)] by simp
  moreover have "linspace 0.9999 0.0001 n ! i < 1"
    using probs_bounds(2) [OF i] by simp
  ultimately have "prob2logit (linspace 0.9999 0.0001 n ! j) <
                   prob2logit (linspace 0.9999 0.0001 n ! i)"
    using probs_strict [OF assms] by (intro prob2logit_strict_mono)
  with assms i show ?thesis by (simp add: length_linspace)
qed

lemma thresholds_mono:
  assumes "i \<le> j" and "j < n"
  shows "map prob2logit (linspace 0.9999 0.0001 n) ! j \<le>
         map prob2logit (linspace 0.9999 0.0001 n) ! i"
proof (cases "i = j")
  case True
  then show ?thesis by simp
next
  case False
  with assms have "i < j" by simp
  from thresholds_strict [OF this assms(2)] show ?thesis by simp
qed


section \<open>The claims\<close>

text \<open>
  C3. For a heatmap and a label of the same shape and any real threshold, post returns a
  segmentation of that shape whose value at every pixel is 0 where the label is 0
  (whatever the logit), 255 where the logit is at least the threshold (inclusive) and the
  label is not 0, and 127 at every other pixel.
\<close>

theorem post_segmentation:
  assumes "shape label = shape logits"
  shows "\<exists>segmentation. post logits label threshold = Inr segmentation \<and>
           shape segmentation = shape logits \<and>
           (\<forall>p. px segmentation p =
                  (if px label p = 0 then 0
                   else if threshold \<le> px logits p then 255 else 127))"
  using assms by (simp add: post_Inr shape_def)

theorem post_segmentation_witness:
  "shape (row_image [0, 255, 127, 255] (0::int)) = shape (row_image [5, 5, 5, -5] (0::real)) \<and>
   (\<exists>segmentation.
      post (row_image [5, 5, 5, -5] 0) (row_image [0, 255, 127, 255] 0) 5 = Inr segmentation \<and>
      shape segmentation = shape (row_image [5, 5, 5, -5] (0::real)) \<and>
      (\<forall>p. px segmentation p =
             (if px (row_image [0, 255, 127, 255] (0::int)) p = 0 then 0
              else if 5 \<le> px (row_image [5, 5, 5, -5] (0::real)) p then 255 else 127)))"
proof -
  have sh: "shape (row_image [0, 255, 127, 255] (0::int)) = shape (row_image [5, 5, 5, -5] (0::real))"
    by (simp add: shape_def row_image_def)
  from post_segmentation [OF sh, of 5] sh show ?thesis by simp
qed

text \<open>
  C9. The result of compute\_FROC (FPs, TPs, lesion count, or the exception) is the same
  for any two values of its acceptance\_ratio argument: the body compares the overlap
  ratio with the module constant ACCEPTANCE\_RATIO and never reads the parameter.
\<close>

theorem compute_FROC_ignores_acceptance_ratio:
  "compute_FROC logits label num_thresholds r1 = compute_FROC logits label num_thresholds r2"
  by (simp add: compute_FROC_def)



lemma prob2logit_hi: "0 < prob2logit 0.9999" "prob2logit 0.9999 < 10000"
proof -
  have eq: "prob2logit 0.9999 = ln 9999"
  proof -
    have "ln (9999 / 10000 :: real) - ln (1 / 10000) = ln ((9999 / 10000) / (1 / 10000))"
      by (subst ln_div) simp_all
    then show ?thesis by (simp add: prob2logit_def)
  qed
  have "0 < ln (9999::real)" by simp
  then show "0 < prob2logit 0.9999" by (simp only: eq)
  have "ln (9999::real) \<le> 9999 - 1" by (rule ln_le_minus_one) simp
  then show "prob2logit 0.9999 < 10000" by (simp only: eq)
qed

lemma thresholds_1: "map prob2logit (linspace 0.9999 0.0001 1) = [prob2logit 0.9999]"
  by (simp add: linspace_def)

lemma thresholds_3:
  "map prob2logit (linspace 0.9999 0.0001 3) = [prob2logit 0.9999, 0, - prob2logit 0.9999]"
proof -
  have "linspace 0.9999 0.0001 3 = [0.9999, 0.5, 0.0001]"
    by (simp add: linspace_def upt_rec)
  moreover have "prob2logit 0.5 = 0" by (simp add: prob2logit_def)
  moreover have "prob2logit 0.0001 = - prob2logit 0.9999" by (simp add: prob2logit_def)
  ultimately show ?thesis by simp
qed

lemmas label_eval = ndimage_label_def indices_def add_pixel_def touches_def adjacent_def
  structure_mask_def eq_scalar_def row_image_def

lemma compute_FROC_3:
  "compute_FROC logits label 3 r =
     froc_loop logits label [prob2logit 0.9999, 0, - prob2logit 0.9999] [0, 1, 2]
       ([0, 0, 0], [0, 0, 0], 0)"
proof -
  have "[0..<3] = [0, 1, 2]" by (simp add: upt_rec)
  moreover have "replicate 3 (0::nat) = [0, 0, 0]" by (simp add: numeral_3_eq_3)
  moreover have n3: "nat 3 = 3" by simp
  ultimately show ?thesis
    unfolding compute_FROC_def Let_def n3 thresholds_3 by simp
qed

lemmas froc_eval = froc_body_def post_def set_where_def full_def ge_scalar_def shape_def
  amax_def label_eval ACCEPTANCE_RATIO_def np_get_def Let_def

lemma length_filter_mono:
  "(\<And>x. x \<in> set xs \<Longrightarrow> P x \<Longrightarrow> Q x) \<Longrightarrow> length (filter P xs) \<le> length (filter Q xs)"
  by (induction xs) auto

lemma count_TPs_mono:
  assumes "\<And>p. px s1 p = 255 \<Longrightarrow> px s2 p = 255"
  shows "count_TPs lesions s1 0 \<le> count_TPs lesions s2 0"
proof -
  have pass: "ACCEPTANCE_RATIO \<le> real (length (filter (\<lambda>p. px s2 p = 255) R)) / real (length R)"
    if "ACCEPTANCE_RATIO \<le> real (length (filter (\<lambda>p. px s1 p = 255) R)) / real (length R)"
    for R
  proof -
    have "length (filter (\<lambda>p. px s1 p = 255) R) \<le> length (filter (\<lambda>p. px s2 p = 255) R)"
      by (rule length_filter_mono) (rule assms)
    then have "real (length (filter (\<lambda>p. px s1 p = 255) R)) / real (length R) \<le>
               real (length (filter (\<lambda>p. px s2 p = 255) R)) / real (length R)"
      by (intro divide_right_mono) simp_all
    with that show ?thesis by simp
  qed
  show ?thesis
    unfolding count_TPs_filter using pass by (simp add: length_filter_mono)
qed

lemma post_255_mono:
  assumes "shape label = shape logits" and "t2 \<le> t1"
    and "px (projr (post logits label t1)) p = 255"
  shows "px (projr (post logits label t2)) p = 255"
  using assms by (simp add: post_Inr split: if_splits)

lemma compute_FROC_zero: "compute_FROC logits label 0 r = Inr ([], [], 0)"
  by (simp add: compute_FROC_def linspace_def)

lemma TPs_sorted:
  assumes "shape label = shape logits"
  shows "sorted (map (\<lambda>i. count_TPs lesions
           (projr (post logits label (map prob2logit (linspace 0.9999 0.0001 n) ! i))) 0)
           [0..<n])"
proof -
  have "count_TPs lesions
           (projr (post logits label (map prob2logit (linspace 0.9999 0.0001 n) ! i))) 0 \<le>
        count_TPs lesions
           (projr (post logits label (map prob2logit (linspace 0.9999 0.0001 n) ! j))) 0"
    if "i \<le> j" and "j < n" for i j
    by (rule count_TPs_mono) (rule post_255_mono [OF assms thresholds_mono [OF that]])
  then show ?thesis
    by (simp add: sorted_iff_nth_mono)
qed

text \<open>
  C10. For a lesion-bearing image (the label holds a pixel valued 255 and no larger
  value), the TPs vector that compute\_FROC returns is non-decreasing in the threshold
  index.
\<close>

theorem TPs_nondecreasing:
  assumes "compute_FROC logits label n r = Inr (FPs, TPs, num_lesions)"
    and "\<exists>p \<in> set (indices label). px label p = 255"
    and "\<forall>p \<in> set (indices label). px label p \<le> 255"
  shows "sorted TPs"
proof (cases "n = 0")
  case True
  with assms(1) show ?thesis by (simp add: compute_FROC_zero)
next
  case False
  with compute_FROC_Inr_wf [OF assms(1)]
  have n: "0 \<le> n" and sh: "shape label = shape logits" by auto
  from assms(2,3) have "amax label = Inr 255" by (simp add: amax_255_iff)
  from compute_FROC_lesion [OF sh this n, of r] assms(1)
  have "TPs = map (\<lambda>i. count_TPs (ndimage_label (eq_scalar label 255) structure_mask)
                      (projr (post logits label
                         (map prob2logit (linspace 0.9999 0.0001 (nat n)) ! i))) 0)
              [0..<nat n]"
    by simp
  then show ?thesis by (simp only: TPs_sorted [OF sh])
qed

lemma ex_lesion:
  assumes "0 < t" and "t < 10000"
  shows "froc_loop (row_image [0, -10000, 10000] 0) (row_image [255, 255, 0] 0) [t, 0, - t]
     [0, 1, 2] ([0, 0, 0], [0, 0, 0], 0) = Inr ([0, 0, 0], [0, 1, 1], 1)"
  using assms by (simp add: froc_eval)

theorem TPs_nondecreasing_witness:
  "compute_FROC (row_image [0, -10000, 10000] 0) (row_image [255, 255, 0] 0) 3 (1 / 10) =
     Inr ([0, 0, 0], [0, 1, 1], 1) \<and>
   (\<exists>p \<in> set (indices (row_image [255, 255, 0] (0::int))).
      px (row_image [255, 255, 0] (0::int)) p = 255) \<and>
   list_all (\<lambda>p. px (row_image [255, 255, 0] (0::int)) p \<le> 255)
     (indices (row_image [255, 255, 0] (0::int))) \<and>
   sorted [0, 1, 1 :: nat]"
proof -
  have res: "compute_FROC (row_image [0, -10000, 10000] 0) (row_image [255, 255, 0] 0) 3 (1 / 10) =
     Inr ([0, 0, 0], [0, 1, 1], 1)"
    unfolding compute_FROC_3 by (rule ex_lesion [OF prob2logit_hi])
  have has: "\<exists>p \<in> set (indices (row_image [255, 255, 0] (0::int))).
      px (row_image [255, 255, 0] (0::int)) p = 255"
    by (simp add: indices_def row_image_def)
  have le: "\<forall>p \<in> set (indices (row_image [255, 255, 0] (0::int))).
      px (row_image [255, 255, 0] (0::int)) p \<le> 255"
    by (simp add: indices_def row_image_def)
  from TPs_nondecreasing [OF res has le] res has le show ?thesis
    by (simp add: list_all_iff)
qed

lemma ex_normal:
  assumes "0 < t" and "t < 10000"
  shows "froc_loop (row_image [10000, 0, 10000] 0) (row_image [127, 127, 127] 0) [t, 0, - t]
     [0, 1, 2] ([0, 0, 0], [0, 0, 0], 0) = Inr ([2, 2, 2], [0, 0, 0], 0)"
  using assms by (simp add: froc_eval)

lemma sorted_recurrence:
  fixes F :: "nat list"
  assumes "\<And>i. i < length F \<Longrightarrow> F ! i = (if i = 0 then raw i else max (raw i) (F ! (i - 1)))"
  shows "sorted F"
proof -
  have "F ! i \<le> F ! Suc i" if "Suc i < length F" for i
    using assms [OF that] by simp
  then show ?thesis by (simp add: sorted_iff_nth_Suc)
qed

text \<open>
  C2. For a lesion-free image (no pixel of the label is 255), the FPs vector that
  compute\_FROC returns has one entry per threshold; entry 0 is the number of regions of
  pixels valued 255 in the segmentation at threshold 0, never clamped; entry \<open>i > 0\<close> is
  the maximum of the number of regions at threshold \<open>i\<close> and the (already clamped) entry
  \<open>i - 1\<close>; hence the vector is non-decreasing.
\<close>

theorem FPs_clamped:
  assumes "compute_FROC logits label n r = Inr (FPs, TPs, num_lesions)"
    and "\<forall>p \<in> set (indices label). px label p \<noteq> 255"
  shows "length FPs = nat n \<and>
     (\<forall>i<nat n. \<exists>segmentation.
         post logits label (map prob2logit (linspace 0.9999 0.0001 (nat n)) ! i) =
           Inr segmentation \<and>
         FPs ! i =
           (if i = 0 then length (ndimage_label (eq_scalar segmentation 255) structure_mask)
            else max (length (ndimage_label (eq_scalar segmentation 255) structure_mask))
                     (FPs ! (i - 1)))) \<and>
     sorted FPs"
proof (cases "n = 0")
  case True
  with assms(1) show ?thesis by (simp add: compute_FROC_zero)
next
  case False
  with compute_FROC_Inr_wf [OF assms(1)]
  have n: "0 \<le> n" and sh: "shape label = shape logits" and ne: "indices label \<noteq> []" by auto
  from ne obtain m where m: "amax label = Inr m" by (rule amax_cases)
  from m assms(2) have m255: "m \<noteq> 255" by (rule amax_no_lesion)
  define raw where "raw i = length (ndimage_label (eq_scalar (projr (post logits label
      (map prob2logit (linspace 0.9999 0.0001 (nat n)) ! i))) 255) structure_mask)" for i
  from compute_FROC_normal [OF sh m m255 n, of r] assms(1)
  have len: "length FPs = nat n"
    and rec: "\<forall>i<nat n. FPs ! i = (if i = 0 then raw i else max (raw i) (FPs ! (i - 1)))"
    unfolding raw_def by auto
  have post: "post logits label t = Inr (projr (post logits label t))" for t
    by (simp add: post_Inr [OF sh])
  have "\<exists>segmentation.
         post logits label (map prob2logit (linspace 0.9999 0.0001 (nat n)) ! i) =
           Inr segmentation \<and>
         FPs ! i =
           (if i = 0 then length (ndimage_label (eq_scalar segmentation 255) structure_mask)
            else max (length (ndimage_label (eq_scalar segmentation 255) structure_mask))
                     (FPs ! (i - 1)))" if "i < nat n" for i
    using rec [rule_format, OF that] post [of "map prob2logit (linspace 0.9999 0.0001 (nat n)) ! i"]
    unfolding raw_def by blast
  moreover have "sorted FPs"
    using rec [rule_format] by (intro sorted_recurrence [of FPs raw]) (simp add: len)
  ultimately show ?thesis using len by blast
qed

theorem FPs_clamped_witness:
  "compute_FROC (row_image [10000, 0, 10000] 0) (row_image [127, 127, 127] 0) 3 (1 / 10) =
     Inr ([2, 2, 2], [0, 0, 0], 0) \<and>
   list_all (\<lambda>p. px (row_image [127, 127, 127] (0::int)) p \<noteq> 255)
     (indices (row_image [127, 127, 127] (0::int))) \<and>
   length [2, 2, 2 :: nat] = nat 3 \<and>
   (\<exists>segmentation.
      post (row_image [10000, 0, 10000] 0) (row_image [127, 127, 127] 0)
        (map prob2logit (linspace 0.9999 0.0001 (nat 3)) ! 0) = Inr segmentation \<and>
      [2, 2, 2 :: nat] ! 0 = length (ndimage_label (eq_scalar segmentation 255) structure_mask)) \<and>
   (\<exists>segmentation.
      post (row_image [10000, 0, 10000] 0) (row_image [127, 127, 127] 0)
        (map prob2logit (linspace 0.9999 0.0001 (nat 3)) ! 1) = Inr segmentation \<and>
      length (ndimage_label (eq_scalar segmentation 255) structure_mask) = 1 \<and>
      [2, 2, 2 :: nat] ! 1 =
        max (length (ndimage_label (eq_scalar segmentation 255) structure_mask))
            ([2, 2, 2] ! 0)) \<and>
   sorted [2, 2, 2 :: nat]"
proof -
  have res: "compute_FROC (row_image [10000, 0, 10000] 0) (row_image [127, 127, 127] 0) 3 (1 / 10) =
     Inr ([2, 2, 2], [0, 0, 0], 0)"
    unfolding compute_FROC_3 by (rule ex_normal [OF prob2logit_hi])
  have no: "\<forall>p \<in> set (indices (row_image [127, 127, 127] (0::int))).
      px (row_image [127, 127, 127] (0::int)) p \<noteq> 255"
    by (simp add: indices_def row_image_def)
  note t = FPs_clamped [OF res no]
  from t have len: "length [2, 2, 2 :: nat] = nat 3" by blast
  from t have srt: "sorted [2, 2, 2 :: nat]" by blast
  from t have all: "\<forall>i<nat 3. \<exists>segmentation.
         post (row_image [10000, 0, 10000] 0) (row_image [127, 127, 127] 0)
           (map prob2logit (linspace 0.9999 0.0001 (nat 3)) ! i) = Inr segmentation \<and>
         [2, 2, 2 :: nat] ! i =
           (if i = 0 then length (ndimage_label (eq_scalar segmentation 255) structure_mask)
            else max (length (ndimage_label (eq_scalar segmentation 255) structure_mask))
                     ([2, 2, 2] ! (i - 1)))" by blast
  from all [rule_format, of 0] have i0: "\<exists>segmentation.
      post (row_image [10000, 0, 10000] 0) (row_image [127, 127, 127] 0)
        (map prob2logit (linspace 0.9999 0.0001 (nat 3)) ! 0) = Inr segmentation \<and>
      [2, 2, 2 :: nat] ! 0 = length (ndimage_label (eq_scalar segmentation 255) structure_mask)"
    by simp
  have th1: "map prob2logit (linspace 0.9999 0.0001 (nat 3)) ! 1 = 0"
  proof -
    have n3: "nat 3 = 3" by simp
    show ?thesis unfolding n3 thresholds_3 by simp
  qed
  have one: "length (ndimage_label (eq_scalar (projr (post (row_image [10000, 0, 10000] 0)
      (row_image [127, 127, 127] 0) 0)) 255) structure_mask) = 1"
    by (simp add: post_def set_where_def full_def ge_scalar_def shape_def label_eval)
  from all [rule_format, of 1] obtain segmentation where
    p1: "post (row_image [10000, 0, 10000] 0) (row_image [127, 127, 127] 0)
        (map prob2logit (linspace 0.9999 0.0001 (nat 3)) ! 1) = Inr segmentation"
    and v1: "[2, 2, 2 :: nat] ! 1 =
        max (length (ndimage_label (eq_scalar segmentation 255) structure_mask))
            ([2, 2, 2] ! 0)"
    by auto
  from p1 have "segmentation = projr (post (row_image [10000, 0, 10000] 0)
      (row_image [127, 127, 127] 0) 0)"
    unfolding th1 by simp
  with one have "length (ndimage_label (eq_scalar segmentation 255) structure_mask) = 1"
    by simp
  with p1 v1 have i1: "\<exists>segmentation.
      post (row_image [10000, 0, 10000] 0) (row_image [127, 127, 127] 0)
        (map prob2logit (linspace 0.9999 0.0001 (nat 3)) ! 1) = Inr segmentation \<and>
      length (ndimage_label (eq_scalar segmentation 255) structure_mask) = 1 \<and>
      [2, 2, 2 :: nat] ! 1 =
        max (length (ndimage_label (eq_scalar segmentation 255) structure_mask))
            ([2, 2, 2] ! 0)"
    by blast
  from no have no': "list_all (\<lambda>p. px (row_image [127, 127, 127] (0::int)) p \<noteq> 255)
     (indices (row_image [127, 127, 127] (0::int)))"
    by (simp add: list_all_iff)
  from res no' len i0 i1 srt show ?thesis by blast
qed



lemma ndimage_label_nonempty:
  assumes "ndimage_label input structure \<noteq> []"
  shows "\<exists>p \<in> set (indices input). px input p"
proof -
  from assms have "filter (px input) (indices input) \<noteq> []"
    by (auto simp: ndimage_label_def)
  then show ?thesis by (simp add: filter_empty_conv)
qed

lemma adjacent_structure_mask:
  "adjacent structure_mask p q \<longleftrightarrow>
     \<bar>int (fst q) - int (fst p)\<bar> \<le> 1 \<and> \<bar>int (snd q) - int (snd p)\<bar> \<le> 1"
proof -
  have entry: "0 < structure_mask ! nat (dr + 1) ! nat (dc + 1)"
    if "\<bar>dr\<bar> \<le> 1" and "\<bar>dc\<bar> \<le> 1" for dr dc :: int
  proof -
    from that have "dr = -1 \<or> dr = 0 \<or> dr = 1" and "dc = -1 \<or> dc = 0 \<or> dc = 1" by auto
    then show ?thesis by (auto simp: structure_mask_def)
  qed
  show ?thesis by (auto simp: adjacent_def Let_def entry)
qed

lemma indices_row_fun: "indices (row_fun n f) = map (Pair 0) [0..<n]"
  by (simp add: indices_def row_fun_def)

lemma label_row:
  "k < n \<Longrightarrow>
   foldr (add_pixel structure_mask) (map (Pair r) [k..<n]) [] = [map (Pair r) [k..<n]]"
proof (induction "n - k" arbitrary: k)
  case 0
  then show ?case by simp
next
  case (Suc d)
  then have split: "[k..<n] = k # [Suc k..<n]" by (simp add: upt_conv_Cons)
  show ?case
  proof (cases "Suc k = n")
    case True
    then show ?thesis by (simp add: split add_pixel_def)
  next
    case False
    with Suc.prems have lt: "Suc k < n" by simp
    from Suc.hyps(2) have "d = n - Suc k" by simp
    from Suc.hyps(1) [OF this lt]
    have IH: "foldr (add_pixel structure_mask) (map (Pair r) [Suc k..<n]) [] =
              [map (Pair r) [Suc k..<n]]" .
    from lt have "(r, Suc k) \<in> set (map (Pair r) [Suc k..<n])" by simp
    moreover have "adjacent structure_mask (r, k) (r, Suc k)"
      by (simp add: adjacent_structure_mask)
    ultimately have "touches structure_mask (r, k) (map (Pair r) [Suc k..<n])"
      unfolding touches_def by blast
    then show ?thesis by (simp add: split IH add_pixel_def)
  qed
qed

lemma ndimage_label_full_row:
  assumes "0 < n" and "\<And>c. c < n \<Longrightarrow> f c"
  shows "ndimage_label (row_fun n f) structure_mask = [map (Pair 0) [0..<n]]"
proof -
  have "filter (px (row_fun n f)) (map (Pair 0) [0..<n]) = map (Pair 0) [0..<n]"
    using assms(2) by (simp add: row_fun_def filter_map comp_def)
  with label_row [OF assms(1), of 0] show ?thesis
    by (simp add: ndimage_label_def indices_row_fun)
qed

lemma filter_less_upt: "filter (\<lambda>c. c < m) [0..<n] = [0..<min m n]"
proof (induction n)
  case 0
  then show ?case by simp
next
  case (Suc n)
  show ?case
  proof (cases "n < m")
    case True
    then have "min m (Suc n) = Suc n" and "min m n = n" by auto
    with Suc True show ?thesis by simp
  next
    case False
    then have "min m (Suc n) = m" and "min m n = m" by auto
    with Suc False show ?thesis by simp
  qed
qed

lemma length_filter_row:
  "length (filter (\<lambda>p. snd p < m) (map (Pair (0::nat)) [0..<n])) = min m n"
  by (simp add: filter_map comp_def filter_less_upt)

lemma compute_FROC_1:
  "compute_FROC logits label 1 r =
     froc_loop logits label [prob2logit 0.9999] [0] ([0], [0], 0)"
proof -
  have n1: "nat 1 = 1" by simp
  show ?thesis unfolding compute_FROC_def Let_def n1 thresholds_1 by simp
qed

text \<open>
  C7. With acceptance\_ratio = 0.1, for a lesion-bearing image whose label has exactly one
  region of pixels valued 255, of area 100: at a threshold where 9 pixels of the region
  are valued 255 in the segmentation the TP count is 0, and where 10 pixels are (ratio
  exactly 0.1) the TP count is 1.
\<close>

theorem lesion_area_100_boundary:
  assumes "compute_FROC logits label n (1 / 10) = Inr (FPs, TPs, num_lesions)"
    and "\<forall>p \<in> set (indices label). px label p \<le> 255"
    and "ndimage_label (eq_scalar label 255) structure_mask = [lesion]"
    and "length lesion = 100"
    and "i < nat n"
    and "post logits label (map prob2logit (linspace 0.9999 0.0001 (nat n)) ! i) =
           Inr segmentation"
  shows "(length (filter (\<lambda>p. px segmentation p = 255) lesion) = 9 \<longrightarrow> TPs ! i = 0) \<and>
         (length (filter (\<lambda>p. px segmentation p = 255) lesion) = 10 \<longrightarrow> TPs ! i = 1)"
proof -
  from assms(5) have n0: "n \<noteq> 0" by auto
  with compute_FROC_Inr_wf [OF assms(1)]
  have n: "0 \<le> n" and sh: "shape label = shape logits" by auto
  from assms(3) have "ndimage_label (eq_scalar label 255) structure_mask \<noteq> []" by simp
  then have "\<exists>p \<in> set (indices (eq_scalar label 255)). px (eq_scalar label 255) p"
    by (rule ndimage_label_nonempty)
  then have "\<exists>p \<in> set (indices label). px label p = 255"
    by (simp add: eq_scalar_def indices_def)
  with assms(2) have "amax label = Inr 255" by (simp add: amax_255_iff)
  from compute_FROC_lesion [OF sh this n, of "1 / 10"] assms(1,3)
  have "TPs = map (\<lambda>i. count_TPs [lesion]
                      (projr (post logits label
                         (map prob2logit (linspace 0.9999 0.0001 (nat n)) ! i))) 0)
              [0..<nat n]"
    by simp
  with assms(5,6) have "TPs ! i = count_TPs [lesion] segmentation 0" by simp
  with assms(4) show ?thesis by (simp add: ACCEPTANCE_RATIO_def)
qed

lemma row_100_segmentation:
  assumes "0 < t" and "t < 10000"
  shows "post (row_fun 100 (\<lambda>c. if c < m then 10000 else - 10000)) (row_fun 100 (\<lambda>c. 255)) t =
     Inr (row_fun 100 (\<lambda>c. if c < m then 255 else 127))"
  using assms by (auto simp: post_Inr shape_def row_fun_def)

lemma row_100_label:
  "ndimage_label (eq_scalar (row_fun 100 (\<lambda>c. 255::int)) 255) structure_mask =
     [map (Pair 0) [0..<100]]"
proof -
  have "eq_scalar (row_fun 100 (\<lambda>c. 255::int)) 255 = row_fun 100 (\<lambda>c. True)"
    by (simp add: eq_scalar_def row_fun_def)
  then show ?thesis by (simp add: ndimage_label_full_row)
qed

lemma row_100_overlap:
  "length (filter (\<lambda>p. px (row_fun 100 (\<lambda>c. if c < m then (255::8 word) else 127)) p = 255)
     (map (Pair 0) [0..<100])) = min m 100"
proof -
  have "(\<lambda>p. px (row_fun 100 (\<lambda>c. if c < m then (255::8 word) else 127)) p = 255) =
        (\<lambda>p. snd p < m)"
    by (auto simp: row_fun_def)
  then show ?thesis by (simp only: length_filter_row)
qed

lemma row_100_froc:
  assumes "0 < t" and "t < 10000"
  shows "froc_loop (row_fun 100 (\<lambda>c. if c < m then 10000 else - 10000)) (row_fun 100 (\<lambda>c. 255))
           [t] [0] ([0], [0], 0) =
         Inr ([0], [if 10 \<le> m then 1 else 0], 1)"
proof -
  have sh: "shape (row_fun 100 (\<lambda>c. 255::int)) =
            shape (row_fun 100 (\<lambda>c. if c < m then 10000 else - 10000 :: real))"
    by (simp add: shape_def row_fun_def)
  have "\<exists>p \<in> set (indices (row_fun 100 (\<lambda>c. 255::int))). px (row_fun 100 (\<lambda>c. 255::int)) p = 255"
  proof -
    have "(0, 0) \<in> set (indices (row_fun 100 (\<lambda>c. 255::int)))"
      by (simp add: indices_row_fun)
    moreover have "px (row_fun 100 (\<lambda>c. 255::int)) (0, 0) = 255"
      by (simp add: row_fun_def)
    ultimately show ?thesis by blast
  qed
  moreover have "\<forall>p \<in> set (indices (row_fun 100 (\<lambda>c. 255::int))).
      px (row_fun 100 (\<lambda>c. 255::int)) p \<le> 255"
    by (simp add: row_fun_def)
  ultimately have mx: "amax (row_fun 100 (\<lambda>c. 255::int)) = Inr 255"
    by (simp only: amax_255_iff)
  have cnt: "count_TPs [map (Pair 0) [0..<100]]
      (row_fun 100 (\<lambda>c. if c < m then 255 else 127)) 0 = (if 10 \<le> m then 1 else 0)"
    unfolding count_TPs.simps Let_def row_100_overlap
    by (auto simp: ACCEPTANCE_RATIO_def min_def)
  have "froc_body (row_fun 100 (\<lambda>c. if c < m then 10000 else - 10000))
      (row_fun 100 (\<lambda>c. 255)) [t] 0 ([0], [0], 0) =
      Inr ([0], [if 10 \<le> m then 1 else 0], 1)"
    unfolding froc_body_lesion [OF sh mx] row_100_label
    by (simp add: row_100_segmentation [OF assms] cnt del: count_TPs.simps)
  then show ?thesis by simp
qed

theorem lesion_area_100_boundary_witness:
  "compute_FROC (row_fun 100 (\<lambda>c. if c < 9 then 10000 else - 10000)) (row_fun 100 (\<lambda>c. 255))
     1 (1 / 10) = Inr ([0], [0], 1) \<and>
   compute_FROC (row_fun 100 (\<lambda>c. if c < 10 then 10000 else - 10000)) (row_fun 100 (\<lambda>c. 255))
     1 (1 / 10) = Inr ([0], [1], 1) \<and>
   list_all (\<lambda>p. px (row_fun 100 (\<lambda>c. 255::int)) p \<le> 255)
     (indices (row_fun 100 (\<lambda>c. 255::int))) \<and>
   ndimage_label (eq_scalar (row_fun 100 (\<lambda>c. 255::int)) 255) structure_mask =
     [map (Pair 0) [0..<100]] \<and>
   length (map (Pair (0::nat)) [0..<100]) = 100 \<and>
   (0::nat) < nat 1 \<and>
   post (row_fun 100 (\<lambda>c. if c < 9 then 10000 else - 10000)) (row_fun 100 (\<lambda>c. 255))
     (map prob2logit (linspace 0.9999 0.0001 (nat 1)) ! 0) =
     Inr (row_fun 100 (\<lambda>c. if c < 9 then 255 else 127)) \<and>
   length (filter (\<lambda>p. px (row_fun 100 (\<lambda>c. if c < 9 then (255::8 word) else 127)) p = 255)
     (map (Pair 0) [0..<100])) = 9 \<and>
   [0::nat] ! 0 = 0 \<and>
   post (row_fun 100 (\<lambda>c. if c < 10 then 10000 else - 10000)) (row_fun 100 (\<lambda>c. 255))
     (map prob2logit (linspace 0.9999 0.0001 (nat 1)) ! 0) =
     Inr (row_fun 100 (\<lambda>c. if c < 10 then 255 else 127)) \<and>
   length (filter (\<lambda>p. px (row_fun 100 (\<lambda>c. if c < 10 then (255::8 word) else 127)) p = 255)
     (map (Pair 0) [0..<100])) = 10 \<and>
   [1::nat] ! 0 = 1"
proof -
  have res9: "compute_FROC (row_fun 100 (\<lambda>c. if c < 9 then 10000 else - 10000))
      (row_fun 100 (\<lambda>c. 255)) 1 (1 / 10) = Inr ([0], [0], 1)"
    unfolding compute_FROC_1 using row_100_froc [OF prob2logit_hi, of 9] by simp
  have res10: "compute_FROC (row_fun 100 (\<lambda>c. if c < 10 then 10000 else - 10000))
      (row_fun 100 (\<lambda>c. 255)) 1 (1 / 10) = Inr ([0], [1], 1)"
    unfolding compute_FROC_1 using row_100_froc [OF prob2logit_hi, of 10] by simp
  have le: "\<forall>p \<in> set (indices (row_fun 100 (\<lambda>c. 255::int))).
      px (row_fun 100 (\<lambda>c. 255::int)) p \<le> 255"
    by (simp add: row_fun_def)
  note regions = row_100_label
  have len: "length (map (Pair (0::nat)) [0..<100]) = 100" by simp
  have i: "(0::nat) < nat 1" by simp
  have th: "map prob2logit (linspace 0.9999 0.0001 (nat 1)) ! 0 = prob2logit 0.9999"
  proof -
    have n1: "nat 1 = 1" by simp
    show ?thesis unfolding n1 thresholds_1 by simp
  qed
  have seg9: "post (row_fun 100 (\<lambda>c. if c < 9 then 10000 else - 10000)) (row_fun 100 (\<lambda>c. 255))
     (map prob2logit (linspace 0.9999 0.0001 (nat 1)) ! 0) =
     Inr (row_fun 100 (\<lambda>c. if c < 9 then 255 else 127))"
    unfolding th by (rule row_100_segmentation [OF prob2logit_hi])
  have seg10: "post (row_fun 100 (\<lambda>c. if c < 10 then 10000 else - 10000)) (row_fun 100 (\<lambda>c. 255))
     (map prob2logit (linspace 0.9999 0.0001 (nat 1)) ! 0) =
     Inr (row_fun 100 (\<lambda>c. if c < 10 then 255 else 127))"
    unfolding th by (rule row_100_segmentation [OF prob2logit_hi])
  have o9: "length (filter (\<lambda>p. px (row_fun 100 (\<lambda>c. if c < 9 then (255::8 word) else 127)) p = 255)
     (map (Pair 0) [0..<100])) = 9"
    by (simp only: row_100_overlap)
  have o10: "length (filter (\<lambda>p. px (row_fun 100 (\<lambda>c. if c < 10 then (255::8 word) else 127)) p = 255)
     (map (Pair 0) [0..<100])) = 10"
    by (simp only: row_100_overlap)
  from lesion_area_100_boundary [OF res9 le regions len i seg9] o9
  have c9: "[0::nat] ! 0 = 0" by blast
  from lesion_area_100_boundary [OF res10 le regions len i seg10] o10
  have c10: "[1::nat] ! 0 = 1" by blast
  from le have le': "list_all (\<lambda>p. px (row_fun 100 (\<lambda>c. 255::int)) p \<le> 255)
     (indices (row_fun 100 (\<lambda>c. 255::int)))"
    by (simp only: list_all_iff)
  from res9 res10 le' regions len i seg9 o9 c9 seg10 o10 c10 show ?thesis by blast
qed

lemma ex_half_overlap:
  assumes "0 < t" and "t < 10000"
  shows "froc_loop (row_image [10000, -10000] 0) (row_image [255, 255] 0) [t] [0]
     ([0], [0], 0) = Inr ([0], [1], 1)"
  using assms by (simp add: froc_eval)

lemma ex_half_segmentation:
  assumes "0 < t" and "t < 10000"
  shows "\<exists>segmentation.
      post (row_image [10000, -10000] 0) (row_image [255, 255] 0) t = Inr segmentation \<and>
      filter (\<lambda>p. px segmentation p = 255) [(0, 0), (0, 1)] = [(0, 0)]"
  using assms
  by (simp add: post_def set_where_def full_def ge_scalar_def eq_scalar_def shape_def
      row_image_def)

text \<open>
  C1. The claim: a region of the label counts as a true positive exactly when
  overlap\_area / lesion\_area reaches the acceptance\_ratio passed by the caller. The
  code at one input: the label is one region of two pixels, the segmentation at the only
  threshold (logit(0.9999)) covers one of them, and the caller passes acceptance\_ratio =
  0.9. The overlap ratio 1/2 is below 0.9, and compute\_FROC reports one true positive:
  it compares with ACCEPTANCE\_RATIO = 0.1.
\<close>

theorem acceptance_ratio_argument_not_used:
  "compute_FROC (row_image [10000, -10000] 0) (row_image [255, 255] 0) 1 (9 / 10) =
     Inr ([0], [1], 1) \<and>
   ndimage_label (eq_scalar (row_image [255, 255] (0::int)) 255) structure_mask =
     [[(0, 0), (0, 1)]] \<and>
   (\<exists>segmentation.
      post (row_image [10000, -10000] 0) (row_image [255, 255] 0)
        (map prob2logit (linspace 0.9999 0.0001 1) ! 0) = Inr segmentation \<and>
      filter (\<lambda>p. px segmentation p = 255) [(0, 0), (0, 1)] = [(0, 0)]) \<and>
   \<not> (9 / 10 :: real) \<le> real (length [(0::nat, 0::nat)]) / real (length [(0::nat, 0::nat), (0, 1)])"
proof -
  have res: "compute_FROC (row_image [10000, -10000] 0) (row_image [255, 255] 0) 1 (9 / 10) =
     Inr ([0], [1], 1)"
    unfolding compute_FROC_1 by (rule ex_half_overlap [OF prob2logit_hi])
  have regions: "ndimage_label (eq_scalar (row_image [255, 255] (0::int)) 255) structure_mask =
     [[(0, 0), (0, 1)]]"
    by (simp add: label_eval)
  have th: "map prob2logit (linspace 0.9999 0.0001 1) ! 0 = prob2logit 0.9999"
    unfolding thresholds_1 by simp
  have seg: "\<exists>segmentation.
      post (row_image [10000, -10000] 0) (row_image [255, 255] 0)
        (map prob2logit (linspace 0.9999 0.0001 1) ! 0) = Inr segmentation \<and>
      filter (\<lambda>p. px segmentation p = 255) [(0, 0), (0, 1)] = [(0, 0)]"
    unfolding th by (rule ex_half_segmentation [OF prob2logit_hi])
  have "\<not> (9 / 10 :: real) \<le> real (length [(0::nat, 0::nat)]) / real (length [(0::nat, 0::nat), (0, 1)])"
    by simp
  with res regions seg show ?thesis by blast
qed

lemma length_badd: "length (badd acc v) = length acc"
  by (simp add: badd_def)

lemma nth_badd:
  "i < length acc \<Longrightarrow>
   badd acc v ! i = acc ! i + (if length v = length acc then v ! i else hd v)"
  by (simp add: badd_def)

lemma badd_commute: "badd (badd acc x) y = badd (badd acc y) x"
  by (rule nth_equalityI) (simp_all add: length_badd nth_badd)

lemma iadd_Inr_iff:
  "iadd acc v = Inr w \<longleftrightarrow> (length v = length acc \<or> length v = 1) \<and> w = badd acc v"
  by (auto simp: iadd_def badd_def)

lemma iadd_Inl_iff:
  "iadd acc v = Inl e \<longleftrightarrow> \<not> (length v = length acc \<or> length v = 1) \<and> e = ValueError"
  by (auto simp: iadd_def)

lemma row_update_commute: "row_update n r x (row_update n r y s) = row_update n r y (row_update n r x s)"
  by (cases s) (simp add: row_update_def badd_commute split: prod.splits)

lemma compute_FROC_lengths:
  assumes "compute_FROC logits label n r = Inr (f, t, l)"
  shows "length f = nat n \<and> length t = nat n"
proof (cases "n = 0")
  case True
  with assms show ?thesis by (simp add: compute_FROC_zero)
next
  case False
  with compute_FROC_Inr_wf [OF assms]
  have n: "0 \<le> n" and sh: "shape label = shape logits" and ne: "indices label \<noteq> []" by auto
  from ne obtain m where m: "amax label = Inr m" by (rule amax_cases)
  show ?thesis
  proof (cases "m = 255")
    case True
    with m have "amax label = Inr 255" by simp
    from compute_FROC_lesion [OF sh this n, of r] assms show ?thesis by auto
  next
    case False
    from compute_FROC_normal [OF sh m False n, of r] assms show ?thesis by auto
  qed
qed

lemma accumulate_step:
  "accumulate (row # rows) n r (F, T, nn, nl) =
     (case compute_FROC (fst row) (snd row) n r of
        Inl e \<Rightarrow> Inl e
      | Inr (f, t, l) \<Rightarrow>
         (case iadd F f of
            Inl e \<Rightarrow> Inl e
          | Inr F' \<Rightarrow>
             (case iadd T t of
                Inl e \<Rightarrow> Inl e
              | Inr T' \<Rightarrow>
                  accumulate rows n r (F', T', if l = 0 then nn + 1 else nn, nl + l))))"
  by (cases row) simp

lemma accumulate_ok:
  assumes "\<forall>row \<in> set rows. row_ok L n r row" and "length F = L" and "length T = L"
  shows "accumulate rows n r (F, T, nn, nl) = Inr (fold (row_update n r) rows (F, T, nn, nl))"
  using assms
proof (induction rows arbitrary: F T nn nl)
  case Nil
  then show ?case by simp
next
  case (Cons row rows)
  from Cons.prems(1) obtain f t l where
    res: "compute_FROC (fst row) (snd row) n r = Inr (f, t, l)" and L: "nat n = L \<or> nat n = 1"
    by (auto simp: row_ok_def)
  from compute_FROC_lengths [OF res] L Cons.prems(2,3)
  have F: "iadd F f = Inr (badd F f)" and T: "iadd T t = Inr (badd T t)"
    by (auto simp: iadd_Inr_iff)
  have "accumulate rows n r (badd F f, badd T t, if l = 0 then nn + 1 else nn, nl + l) =
        Inr (fold (row_update n r) rows
          (badd F f, badd T t, if l = 0 then nn + 1 else nn, nl + l))"
    using Cons.prems by (intro Cons.IH) (simp_all add: length_badd)
  moreover have "row_update n r row (F, T, nn, nl) =
      (badd F f, badd T t, if l = 0 then nn + 1 else nn, nl + l)"
    by (simp add: row_update_def res)
  ultimately show ?case
    by (simp add: accumulate_step res F T)
qed

lemma accumulate_Inr_ok:
  assumes "accumulate rows n r (F, T, nn, nl) = Inr s" and "length F = L" and "length T = L"
  shows "\<forall>row \<in> set rows. row_ok L n r row"
  using assms
proof (induction rows arbitrary: F T nn nl)
  case Nil
  then show ?case by simp
next
  case (Cons row rows)
  from Cons.prems(1) obtain f t l where
    res: "compute_FROC (fst row) (snd row) n r = Inr (f, t, l)"
    by (auto simp: accumulate_step split: sum.splits)
  with Cons.prems(1) have F: "iadd F f = Inr (badd F f)" and T: "iadd T t = Inr (badd T t)"
    and rest: "accumulate rows n r (badd F f, badd T t, if l = 0 then nn + 1 else nn, nl + l) = Inr s"
    by (auto simp: accumulate_step iadd_Inr_iff split: sum.splits)
  from F compute_FROC_lengths [OF res] Cons.prems(2) have "nat n = L \<or> nat n = 1"
    by (auto simp: iadd_Inr_iff)
  with res have "row_ok L n r row" by (auto simp: row_ok_def)
  moreover have "\<forall>row \<in> set rows. row_ok L n r row"
    using rest Cons.prems(2,3) by (intro Cons.IH [OF rest]) (simp_all add: length_badd)
  ultimately show ?case by simp
qed

lemma accumulate_permute:
  assumes "mset rows' = mset rows"
    and "accumulate rows n r (F, T, nn, nl) = Inr s"
    and "length T = length F"
  shows "accumulate rows' n r (F, T, nn, nl) = Inr s"
proof -
  from accumulate_Inr_ok [OF assms(2) refl assms(3)]
  have ok: "\<forall>row \<in> set rows. row_ok (length F) n r row" .
  from assms(1) have "set rows' = set rows" by (rule mset_eq_setD)
  with ok have ok': "\<forall>row \<in> set rows'. row_ok (length F) n r row" by simp
  have "fold (row_update n r) rows' = fold (row_update n r) rows"
    using assms(1) by (intro fold_multiset_equiv) (auto simp: fun_eq_iff row_update_commute)
  with accumulate_ok [OF ok refl assms(3), of nn nl] accumulate_ok [OF ok' refl assms(3), of nn nl]
    assms(2)
  show ?thesis by simp
qed

lemma prob2logit_mono:
  assumes "0 < p" and "p \<le> q" and "q < 1"
  shows "prob2logit p \<le> prob2logit q"
proof (cases "p = q")
  case True
  then show ?thesis by simp
next
  case False
  with assms have "p < q" by simp
  from prob2logit_strict_mono [OF assms(1) this assms(3)] show ?thesis by simp
qed

lemma thresholds_bounds:
  assumes "i < n"
  shows "- 10000 < map prob2logit (linspace 0.9999 0.0001 n) ! i"
    and "map prob2logit (linspace 0.9999 0.0001 n) ! i < 10000"
proof -
  have neg: "prob2logit 0.0001 = - prob2logit 0.9999" by (simp add: prob2logit_def)
  have eq: "map prob2logit (linspace 0.9999 0.0001 n) ! i =
            prob2logit (linspace 0.9999 0.0001 n ! i)"
    using assms by (simp add: length_linspace)
  have "prob2logit 0.0001 \<le> prob2logit (linspace 0.9999 0.0001 n ! i)"
    using probs_bounds [OF assms] by (intro prob2logit_mono) simp_all
  with prob2logit_hi(2) show "- 10000 < map prob2logit (linspace 0.9999 0.0001 n) ! i"
    unfolding eq neg by simp
  have "prob2logit (linspace 0.9999 0.0001 n ! i) \<le> prob2logit 0.9999"
    using probs_bounds [OF assms] by (intro prob2logit_mono) simp_all
  with prob2logit_hi(2) show "map prob2logit (linspace 0.9999 0.0001 n) ! i < 10000"
    unfolding eq by simp
qed

lemma recurrence_const:
  fixes F :: "nat list"
  assumes "length F = n"
    and "\<And>i. i < n \<Longrightarrow> F ! i = (if i = 0 then raw i else max (raw i) (F ! (i - 1)))"
    and "\<And>i. i < n \<Longrightarrow> raw i = c"
  shows "F = replicate n c"
proof -
  have "F ! i = c" if "i < n" for i
    using that
  proof (induction i)
    case 0
    with assms(2) [of 0] assms(3) [of 0] show ?case by simp
  next
    case (Suc i)
    then have "F ! i = c" by simp
    with assms(2) [of "Suc i"] assms(3) [of "Suc i"] Suc.prems show ?case by simp
  qed
  with assms(1) show ?thesis by (intro nth_equalityI) simp_all
qed

lemma pixel_post:
  assumes "t < 10000" and "v \<noteq> 0"
  shows "post (pixel_image 10000) (pixel_image v) t = Inr (pixel_image 255)"
  using assms by (simp add: post_Inr shape_def pixel_image_def)

lemma pixel_label: "ndimage_label (eq_scalar (pixel_image v) v) structure_mask = [[(0, 0)]]"
  by (simp add: label_eval pixel_image_def)

lemma pixel_amax: "amax (pixel_image v) = Inr v"
  by (simp add: amax_def indices_def pixel_image_def)

lemma pixel_shape: "shape (pixel_image v) = shape (pixel_image w)"
  by (simp add: shape_def pixel_image_def)

lemma map_upt_const: "(\<And>i. i < n \<Longrightarrow> f i = c) \<Longrightarrow> map f [0..<n] = replicate n c"
  by (intro nth_equalityI) simp_all

lemma pixel_count:
  assumes "t < 10000"
  shows "count_TPs [[(0, 0)]] (projr (post (pixel_image 10000) (pixel_image 255) t)) 0 = 1"
  using assms by (simp add: pixel_post) (simp add: pixel_image_def ACCEPTANCE_RATIO_def)

lemma pixel_raw:
  assumes "t < 10000"
  shows "length (ndimage_label (eq_scalar (projr (post (pixel_image 10000) (pixel_image 127) t))
           255) structure_mask) = 1"
  using assms by (simp add: pixel_post pixel_label)

lemma pixel_lesion:
  assumes "0 \<le> n"
  shows "compute_FROC (pixel_image 10000) (pixel_image 255) n r =
     Inr (replicate (nat n) 0, replicate (nat n) 1, if n = 0 then 0 else 1)"
proof -
  have "map (\<lambda>i. count_TPs [[(0, 0)]] (projr (post (pixel_image 10000) (pixel_image 255)
          (map prob2logit (linspace 0.9999 0.0001 (nat n)) ! i))) 0) [0..<nat n] =
        replicate (nat n) 1"
    by (rule map_upt_const) (rule pixel_count [OF thresholds_bounds(2)])
  with compute_FROC_lesion [OF pixel_shape pixel_amax assms, of 10000 r]
  show ?thesis by (simp only: pixel_label) simp
qed

lemma pixel_normal:
  assumes "0 \<le> n"
  shows "compute_FROC (pixel_image 10000) (pixel_image 127) n r =
     Inr (replicate (nat n) 1, replicate (nat n) 0, 0)"
proof -
  have m: "(127::int) \<noteq> 255" by simp
  from compute_FROC_normal [OF pixel_shape pixel_amax m assms, of 10000 r]
  obtain F where res: "compute_FROC (pixel_image 10000) (pixel_image 127) n r =
      Inr (F, replicate (nat n) 0, 0)"
    and len: "length F = nat n"
    and rec: "\<forall>i<nat n. F ! i =
       (if i = 0
        then length (ndimage_label (eq_scalar (projr (post (pixel_image 10000) (pixel_image 127)
               (map prob2logit (linspace 0.9999 0.0001 (nat n)) ! i))) 255) structure_mask)
        else max (length (ndimage_label (eq_scalar (projr (post (pixel_image 10000)
               (pixel_image 127)
               (map prob2logit (linspace 0.9999 0.0001 (nat n)) ! i))) 255) structure_mask))
               (F ! (i - 1)))"
    by blast
  have raw: "length (ndimage_label (eq_scalar (projr (post (pixel_image 10000) (pixel_image 127)
               (map prob2logit (linspace 0.9999 0.0001 (nat n)) ! i))) 255) structure_mask) = 1"
    if "i < nat n" for i
    by (rule pixel_raw [OF thresholds_bounds(2) [OF that]])
  have "F = replicate (nat n) 1"
    using len rec [rule_format] raw by (rule recurrence_const)
  with res show ?thesis by simp
qed

lemma main_accumulate:
  "main rows n r = Inr res \<longleftrightarrow>
     (\<exists>FPs TPs nn nl.
        accumulate rows n r (replicate (nat NUM_THRESHOLDS) 0, replicate (nat NUM_THRESHOLDS) 0, 0, 0) =
          Inr (FPs, TPs, nn, nl) \<and>
        res = (map (\<lambda>t. true_divide t nl) TPs, map (\<lambda>f. true_divide f nn) FPs))"
  by (auto simp: main_def split: sum.splits)

text \<open>
  C8. Processing the rows of a dataset in another order (any permutation, the reverse
  order among them) gives the same totals (FPs, TPs, normal-image count, lesion count)
  and the same sensitivity and FP\_per\_image vectors, whenever one of the two orders
  gives a result at all; otherwise both orders raise.
\<close>

theorem aggregation_order_independent:
  assumes "mset rows' = mset rows"
  shows "(\<forall>s. accumulate rows' n r
                 (replicate (nat NUM_THRESHOLDS) 0, replicate (nat NUM_THRESHOLDS) 0, 0, 0) = Inr s
              \<longleftrightarrow>
              accumulate rows n r
                 (replicate (nat NUM_THRESHOLDS) 0, replicate (nat NUM_THRESHOLDS) 0, 0, 0) = Inr s) \<and>
         (\<forall>res. main rows' n r = Inr res \<longleftrightarrow> main rows n r = Inr res) \<and>
         (isl (main rows' n r) \<longleftrightarrow> isl (main rows n r))"
proof -
  have acc: "accumulate rows' n r
                 (replicate (nat NUM_THRESHOLDS) 0, replicate (nat NUM_THRESHOLDS) 0, 0, 0) = Inr s
              \<longleftrightarrow>
              accumulate rows n r
                 (replicate (nat NUM_THRESHOLDS) 0, replicate (nat NUM_THRESHOLDS) 0, 0, 0) = Inr s"
    for s
    using accumulate_permute [OF assms, of n r _ _ 0 0 s]
      accumulate_permute [OF assms [symmetric], of n r _ _ 0 0 s]
    by auto
  then have res: "main rows' n r = Inr res \<longleftrightarrow> main rows n r = Inr res" for res
    by (simp add: main_accumulate)
  have "isl (main rows' n r) \<longleftrightarrow> isl (main rows n r)"
  proof (cases "main rows n r")
    case (Inl e)
    with res have "\<And>res. main rows' n r \<noteq> Inr res" by simp
    then have "isl (main rows' n r)" by (cases "main rows' n r") auto
    with Inl show ?thesis by simp
  next
    case (Inr v)
    with res have "main rows' n r = Inr v" by simp
    with Inr show ?thesis by simp
  qed
  with acc res show ?thesis by blast
qed

lemma main_two_pixels:
  "main [(pixel_image 10000, pixel_image 255), (pixel_image 10000, pixel_image 127)] 50 r =
     Inr (replicate 50 (Finite 1), replicate 50 (Finite 1))"
proof -
  have n: "(0::int) \<le> 50" by simp
  show ?thesis
    by (simp add: main_def NUM_THRESHOLDS_def pixel_lesion [OF n] pixel_normal [OF n]
        iadd_def true_divide_def zip_replicate)
qed

theorem aggregation_order_independent_witness:
  "mset (rev [(pixel_image 10000, pixel_image (255::int)), (pixel_image 10000, pixel_image 127)]) =
   mset [(pixel_image (10000::real), pixel_image 255), (pixel_image 10000, pixel_image 127)] \<and>
   main [(pixel_image 10000, pixel_image 255), (pixel_image 10000, pixel_image 127)] 50 (1 / 10) =
     Inr (replicate 50 (Finite 1), replicate 50 (Finite 1)) \<and>
   main (rev [(pixel_image 10000, pixel_image 255), (pixel_image 10000, pixel_image 127)]) 50 (1 / 10) =
     Inr (replicate 50 (Finite 1), replicate 50 (Finite 1))"
proof -
  have perm: "mset (rev [(pixel_image 10000, pixel_image (255::int)), (pixel_image 10000, pixel_image 127)]) =
      mset [(pixel_image (10000::real), pixel_image 255), (pixel_image 10000, pixel_image 127)]"
    by (rule mset_rev)
  note fwd = main_two_pixels [of "1 / 10"]
  from aggregation_order_independent [OF perm, of 50 "1 / 10"] fwd
  have "main (rev [(pixel_image 10000, pixel_image 255), (pixel_image 10000, pixel_image 127)])
      50 (1 / 10) = Inr (replicate 50 (Finite 1), replicate 50 (Finite 1))"
    by blast
  with perm fwd show ?thesis by blast
qed

lemma ndimage_label_not_Nil:
  assumes "p \<in> set (indices input)" and "px input p"
  shows "ndimage_label input structure \<noteq> []"
proof -
  from assms have "filter (px input) (indices input) \<noteq> []"
    by (auto simp: filter_empty_conv)
  then obtain q qs where "filter (px input) (indices input) = q # qs"
    by (cases "filter (px input) (indices input)") auto
  then show ?thesis by (simp add: ndimage_label_def add_pixel_def)
qed

lemma compute_FROC_zero_parts:
  assumes "compute_FROC logits label n r = Inr (f, t, l)"
  shows "(l = 0 \<longrightarrow> t = replicate (nat n) 0) \<and> (l \<noteq> 0 \<longrightarrow> f = replicate (nat n) 0)"
proof (cases "n = 0")
  case True
  with assms show ?thesis by (simp add: compute_FROC_zero)
next
  case False
  with compute_FROC_Inr_wf [OF assms]
  have n: "0 \<le> n" and sh: "shape label = shape logits" and ne: "indices label \<noteq> []" by auto
  from ne obtain m where m: "amax label = Inr m" by (rule amax_cases)
  show ?thesis
  proof (cases "m = 255")
    case True
    with m have mx: "amax label = Inr 255" by simp
    then obtain p where "p \<in> set (indices label)" and "px label p = 255"
      by (auto simp: amax_255_iff)
    then have "p \<in> set (indices (eq_scalar label 255))" and "px (eq_scalar label 255) p"
      by (simp_all add: eq_scalar_def indices_def)
    then have "ndimage_label (eq_scalar label 255) structure_mask \<noteq> []"
      by (rule ndimage_label_not_Nil)
    with compute_FROC_lesion [OF sh mx n, of r] assms False show ?thesis by simp
  next
    case False
    from compute_FROC_normal [OF sh m False n, of r] assms show ?thesis by auto
  qed
qed

lemma badd_zero: "k = L \<or> k = 1 \<Longrightarrow> badd (replicate L 0) (replicate k 0) = replicate L 0"
  by (auto simp: badd_def zip_replicate)

lemma accumulate_zero_totals:
  assumes "accumulate rows n r (F, T, nn, nl) = Inr (F', T', nn', nl')"
    and "length F = L" and "length T = L"
    and "nl = 0 \<longrightarrow> T = replicate L 0"
    and "nn = 0 \<longrightarrow> F = replicate L 0"
  shows "length F' = L \<and> length T' = L \<and>
         (nl' = 0 \<longrightarrow> T' = replicate L 0) \<and> (nn' = 0 \<longrightarrow> F' = replicate L 0)"
  using assms
proof (induction rows arbitrary: F T nn nl)
  case Nil
  then show ?case by simp
next
  case (Cons row rows)
  from Cons.prems(1) obtain f t l where
    res: "compute_FROC (fst row) (snd row) n r = Inr (f, t, l)"
    by (auto simp: accumulate_step split: sum.splits)
  with Cons.prems(1) have
    rest: "accumulate rows n r (badd F f, badd T t, if l = 0 then nn + 1 else nn, nl + l) =
             Inr (F', T', nn', nl')"
    and lf: "length f = length F \<or> length f = 1"
    by (auto simp: accumulate_step iadd_Inr_iff split: sum.splits)
  with compute_FROC_lengths [OF res] Cons.prems(2) have k: "nat n = L \<or> nat n = 1" by simp
  note z = compute_FROC_zero_parts [OF res]
  have T: "nl + l = 0 \<longrightarrow> badd T t = replicate L 0"
    using z Cons.prems(4) k by (auto simp: badd_zero)
  have F: "(if l = 0 then nn + 1 else nn) = 0 \<longrightarrow> badd F f = replicate L 0"
    using z Cons.prems(5) k by (auto simp: badd_zero)
  from Cons.IH [OF rest _ _ T F] Cons.prems(2,3) show ?case
    by (simp add: length_badd)
qed

text \<open>
  C6, as the code has it. Whenever the accumulation over the rows succeeds, main raises
  nothing and returns the two vectors, also when the dataset has no lesion or no normal
  image: with zero lesions in total every entry of sensitivity is NaN (0/0), and with
  zero normal images every entry of FP\_per\_image is NaN.
\<close>

theorem degenerate_dataset_no_failure:
  assumes "accumulate rows n r
             (replicate (nat NUM_THRESHOLDS) 0, replicate (nat NUM_THRESHOLDS) 0, 0, 0) =
           Inr (FPs, TPs, num_normal_images, num_lesions)"
  shows "main rows n r =
           Inr (map (\<lambda>t. true_divide t num_lesions) TPs,
                map (\<lambda>f. true_divide f num_normal_images) FPs) \<and>
         (num_lesions = 0 \<longrightarrow>
            map (\<lambda>t. true_divide t num_lesions) TPs = replicate (nat NUM_THRESHOLDS) NaN) \<and>
         (num_normal_images = 0 \<longrightarrow>
            map (\<lambda>f. true_divide f num_normal_images) FPs = replicate (nat NUM_THRESHOLDS) NaN)"
proof -
  from accumulate_zero_totals [OF assms refl] have
    "num_lesions = 0 \<longrightarrow> TPs = replicate (nat NUM_THRESHOLDS) 0"
    and "num_normal_images = 0 \<longrightarrow> FPs = replicate (nat NUM_THRESHOLDS) 0"
    by simp_all
  then have "num_lesions = 0 \<longrightarrow>
            map (\<lambda>t. true_divide t num_lesions) TPs = replicate (nat NUM_THRESHOLDS) NaN"
    and "num_normal_images = 0 \<longrightarrow>
            map (\<lambda>f. true_divide f num_normal_images) FPs = replicate (nat NUM_THRESHOLDS) NaN"
    by (auto simp: true_divide_def)
  moreover from assms have "main rows n r =
           Inr (map (\<lambda>t. true_divide t num_lesions) TPs,
                map (\<lambda>f. true_divide f num_normal_images) FPs)"
    by (simp add: main_def)
  ultimately show ?thesis by blast
qed

lemma accumulate_normal_pixel:
  "accumulate [(pixel_image 10000, pixel_image 127)] NUM_THRESHOLDS r
     (replicate (nat NUM_THRESHOLDS) 0, replicate (nat NUM_THRESHOLDS) 0, 0, 0) =
   Inr (replicate 50 1, replicate 50 0, 1, 0)"
proof -
  have n: "(0::int) \<le> 50" by simp
  show ?thesis
    by (simp add: NUM_THRESHOLDS_def pixel_normal [OF n] iadd_def zip_replicate)
qed

lemma accumulate_lesion_pixel:
  "accumulate [(pixel_image 10000, pixel_image 255)] NUM_THRESHOLDS r
     (replicate (nat NUM_THRESHOLDS) 0, replicate (nat NUM_THRESHOLDS) 0, 0, 0) =
   Inr (replicate 50 0, replicate 50 1, 0, 1)"
proof -
  have n: "(0::int) \<le> 50" by simp
  show ?thesis
    by (simp add: NUM_THRESHOLDS_def pixel_lesion [OF n] iadd_def zip_replicate)
qed

theorem degenerate_dataset_no_failure_witness:
  "accumulate [(pixel_image 10000, pixel_image 127)] NUM_THRESHOLDS (1 / 10)
     (replicate (nat NUM_THRESHOLDS) 0, replicate (nat NUM_THRESHOLDS) 0, 0, 0) =
     Inr (replicate 50 1, replicate 50 0, 1, 0) \<and>
   main [(pixel_image 10000, pixel_image 127)] NUM_THRESHOLDS (1 / 10) =
     Inr (map (\<lambda>t. true_divide t 0) (replicate 50 0),
          map (\<lambda>f. true_divide f 1) (replicate 50 1)) \<and>
   map (\<lambda>t. true_divide t 0) (replicate 50 0) = replicate (nat NUM_THRESHOLDS) NaN"
proof -
  note acc = accumulate_normal_pixel [of "1 / 10"]
  from degenerate_dataset_no_failure [OF acc] acc show ?thesis by blast
qed

text \<open>
  C6, as the claim has it, fails: on a dataset of one normal image (zero lesions in
  total) and on a dataset of one lesion-bearing image (zero normal images) main reports
  no failure and returns vectors of NaN.
\<close>

theorem degenerate_dataset_counterexample:
  "main [(pixel_image 10000, pixel_image 127)] NUM_THRESHOLDS ACCEPTANCE_RATIO =
     Inr (replicate 50 NaN, replicate 50 (Finite 1)) \<and>
   main [(pixel_image 10000, pixel_image 255)] NUM_THRESHOLDS ACCEPTANCE_RATIO =
     Inr (replicate 50 (Finite 1), replicate 50 NaN)"
proof -
  show ?thesis
    unfolding main_def accumulate_normal_pixel accumulate_lesion_pixel
    by (simp add: true_divide_def)
qed

section \<open>The model of ndimage.label yields the 8-connected components\<close>

lemma adjacent_sym: "adjacent structure_mask p q \<longleftrightarrow> adjacent structure_mask q p"
  by (auto simp: adjacent_structure_mask)

lemma sym_linked: "sym (linked S)"
  using adjacent_sym by (auto simp: linked_def sym_def)

lemma linked_mono: "S \<subseteq> S' \<Longrightarrow> (linked S)\<^sup>* \<subseteq> (linked S')\<^sup>*"
  by (rule rtrancl_mono) (auto simp: linked_def)

lemma mset_concat_filter:
  "mset (concat (filter P xs)) + mset (concat (filter (\<lambda>x. \<not> P x) xs)) = mset (concat xs)"
  by (induction xs) auto

lemma components_add_pixel:
  assumes inv: "components ps Rs" and new: "p \<notin> set ps"
  shows "components (p # ps) (add_pixel structure_mask p Rs)"
proof -
  define Ts where "Ts = filter (touches structure_mask p) Rs"
  define Us where "Us = filter (\<lambda>R. \<not> touches structure_mask p R) Rs"
  define M where "M = p # concat Ts"
  have add: "add_pixel structure_mask p Rs = M # Us"
    by (simp add: add_pixel_def Ts_def Us_def M_def)
  from inv have cover: "set (concat Rs) = set ps" and dist: "distinct (concat Rs)"
    and ne: "[] \<notin> set Rs"
    and conn: "\<And>R a b. R \<in> set Rs \<Longrightarrow> a \<in> set R \<Longrightarrow> b \<in> set R \<Longrightarrow>
                 (a, b) \<in> (linked (set ps))\<^sup>*"
    and closed: "\<And>R a b. R \<in> set Rs \<Longrightarrow> a \<in> set R \<Longrightarrow> b \<in> set ps \<Longrightarrow>
                 adjacent structure_mask a b \<Longrightarrow> b \<in> set R"
    unfolding components_def by blast+
  have perm: "mset (concat Ts) + mset (concat Us) = mset (concat Rs)"
    unfolding Ts_def Us_def by (rule mset_concat_filter)
  then have sets: "set (concat Ts) \<union> set (concat Us) = set ps"
    using cover by (metis set_mset_mset set_mset_union)
  have "mset (concat Ts @ concat Us) = mset (concat Rs)" using perm by simp
  then have "distinct (concat Ts @ concat Us)"
    using dist by (metis mset_eq_imp_distinct_iff)
  with new sets have d': "distinct (concat (M # Us))"
    by (auto simp: M_def)
  have c': "set (concat (M # Us)) = set (p # ps)"
    using sets by (auto simp: M_def)
  have n': "[] \<notin> set (M # Us)"
    using ne by (auto simp: M_def Us_def)
  have up: "(linked (set ps))\<^sup>* \<subseteq> (linked (set (p # ps)))\<^sup>*"
    by (rule linked_mono) auto
  have sym: "(b, a) \<in> (linked (set (p # ps)))\<^sup>*" if "(a, b) \<in> (linked (set (p # ps)))\<^sup>*" for a b
    using symD [OF sym_rtrancl [OF sym_linked] that] .
  have to_p: "(a, p) \<in> (linked (set (p # ps)))\<^sup>*" if "a \<in> set M" for a
  proof (cases "a = p")
    case True
    then show ?thesis by simp
  next
    case False
    with that obtain T where T: "T \<in> set Rs" "touches structure_mask p T" "a \<in> set T"
      by (auto simp: M_def Ts_def)
    then obtain q where q: "q \<in> set T" "adjacent structure_mask p q"
      by (auto simp: touches_def)
    from conn [OF T(1) T(3) q(1)] up have aq: "(a, q) \<in> (linked (set (p # ps)))\<^sup>*" by blast
    from T(1) q(1) cover have "q \<in> set ps" by auto
    with q(2) have "(q, p) \<in> linked (set (p # ps))"
      using adjacent_sym [of p q] by (simp add: linked_def)
    with aq show ?thesis by (rule rtrancl_into_rtrancl)
  qed
  have conn': "(a, b) \<in> (linked (set (p # ps)))\<^sup>*"
    if "R \<in> set (M # Us)" and "a \<in> set R" and "b \<in> set R" for R a b
  proof (cases "R = M")
    case True
    with that have "(a, p) \<in> (linked (set (p # ps)))\<^sup>*" and "(p, b) \<in> (linked (set (p # ps)))\<^sup>*"
      using to_p sym by blast+
    then show ?thesis by (rule rtrancl_trans)
  next
    case False
    with that have "R \<in> set Rs" by (auto simp: Us_def)
    from conn [OF this that(2,3)] up show ?thesis by blast
  qed
  have closed': "b \<in> set R"
    if R: "R \<in> set (M # Us)" and a: "a \<in> set R" and b: "b \<in> set (p # ps)"
      and adj: "adjacent structure_mask a b" for R a b
  proof (cases "b = p")
    case True
    show ?thesis
    proof (cases "R = M")
      case True
      with \<open>b = p\<close> show ?thesis by (simp add: M_def)
    next
      case False
      with R have "R \<in> set Us" by simp
      then have "\<not> touches structure_mask p R" by (simp add: Us_def)
      moreover from a adj \<open>b = p\<close> have "touches structure_mask p R"
        using adjacent_sym [of p a] by (auto simp: touches_def)
      ultimately show ?thesis by simp
    qed
  next
    case False
    with b have bps: "b \<in> set ps" by simp
    show ?thesis
    proof (cases "R = M")
      case RM: True
      show ?thesis
      proof (cases "a = p")
        case True
        from bps cover obtain R' where R': "R' \<in> set Rs" "b \<in> set R'" by auto
        with adj True have "touches structure_mask p R'" by (auto simp: touches_def)
        with R' have "b \<in> set (concat Ts)" by (auto simp: Ts_def)
        with RM show ?thesis by (simp add: M_def)
      next
        case False
        with a RM obtain T where T: "T \<in> set Rs" "touches structure_mask p T" "a \<in> set T"
          by (auto simp: M_def Ts_def)
        from closed [OF T(1) T(3) bps adj] T(1,2) have "b \<in> set (concat Ts)"
          by (auto simp: Ts_def)
        with RM show ?thesis by (simp add: M_def)
      qed
    next
      case False
      with R have "R \<in> set Rs" by (auto simp: Us_def)
      from closed [OF this a bps adj] show ?thesis .
    qed
  qed
  show ?thesis
    unfolding components_def add
    using c' d' n' conn' closed' by blast
qed

lemma components_foldr:
  "distinct ps \<Longrightarrow> components ps (foldr (add_pixel structure_mask) ps [])"
proof (induction ps)
  case Nil
  then show ?case by (simp add: components_def)
next
  case (Cons p ps)
  then show ?case by (simp add: components_add_pixel)
qed

lemma ndimage_label_components:
  "components (filter (px input) (indices input)) (ndimage_label input structure_mask)"
  unfolding ndimage_label_def
  by (rule components_foldr) (simp add: distinct_indices)

text \<open>
  What holds of the TPs entries with the constant in place of the caller's value: entry
  \<open>i\<close> counts the regions of the label whose overlap ratio reaches ACCEPTANCE\_RATIO.
\<close>

lemma TPs_entry_counts_regions:
  assumes "compute_FROC logits label n r = Inr (FPs, TPs, num_lesions)"
    and "\<exists>p \<in> set (indices label). px label p = 255"
    and "\<forall>p \<in> set (indices label). px label p \<le> 255"
    and "i < nat n"
    and "post logits label (map prob2logit (linspace 0.9999 0.0001 (nat n)) ! i) =
           Inr segmentation"
  shows "TPs ! i =
           length (filter (\<lambda>R. ACCEPTANCE_RATIO \<le>
                      real (length (filter (\<lambda>p. px segmentation p = 255) R)) / real (length R))
                    (ndimage_label (eq_scalar label 255) structure_mask)) \<and>
         num_lesions = length (ndimage_label (eq_scalar label 255) structure_mask)"
proof -
  from assms(4) have n0: "n \<noteq> 0" by auto
  with compute_FROC_Inr_wf [OF assms(1)]
  have n: "0 \<le> n" and sh: "shape label = shape logits" by auto
  from assms(2,3) have "amax label = Inr 255" by (simp add: amax_255_iff)
  from compute_FROC_lesion [OF sh this n, of r] assms(1) n0
  have "TPs = map (\<lambda>i. count_TPs (ndimage_label (eq_scalar label 255) structure_mask)
                      (projr (post logits label
                         (map prob2logit (linspace 0.9999 0.0001 (nat n)) ! i))) 0)
              [0..<nat n]"
    and nl: "num_lesions = length (ndimage_label (eq_scalar label 255) structure_mask)"
    by simp_all
  with assms(4,5) have "TPs ! i =
      count_TPs (ndimage_label (eq_scalar label 255) structure_mask) segmentation 0"
    by simp
  with nl show ?thesis by (simp only: count_TPs_filter) simp
qed

end
